theory Spec2Isabelle
  imports Main "HOL-Library.Word"
begin

section \<open>Cancellation scopes\<close>

text \<open>
  The server (\<^verbatim>\<open>echoserver/echoserver.go\<close>) derives, awaits and cancels
  \<^verbatim>\<open>context.Context\<close> values. The context package is not part of the repository, so the
  scopes are modelled here as an arena: a list of scope records, a scope being named by its
  index. A scope's terminal cause is \<open>None\<close> (Go's \<^verbatim>\<open>ctx.Err() == nil\<close>) or one of the
  two context errors.

  Time is abstracted: a scope derived with a positive timeout carries an armed timer, and
  the instant at which the timer goes off is an event of the environment.
\<close>

datatype ctxErr = Canceled | DeadlineExceeded

record scope =
  parent :: "nat option"
  timer :: bool
  err :: "ctxErr option"

type_synonym store = "scope list"

text \<open>Modelled from the spec: \<^verbatim>\<open>cause(scope)\<close> and \<^verbatim>\<open>isDone(scope)\<close> of section 4.1
  (\<^verbatim>\<open>ctx.Err()\<close> and the closed \<^verbatim>\<open>ctx.Done()\<close> channel of the context package, which is
  missing from the sources).\<close>

definition Err :: "store \<Rightarrow> nat \<Rightarrow> ctxErr option" where
  "Err st x = (if x < length st then err (st ! x) else None)"

definition isDone :: "store \<Rightarrow> nat \<Rightarrow> bool" where
  "isDone st x = (Err st x \<noteq> None)"

text \<open>Modelled from the spec: the push-based propagation of section 4.1. Firing a scope
  gives its cause to every descendant that has none yet. Children are always created
  after their parent, so one pass over the scopes behind \<open>x\<close> reaches all of them;
  \<open>F\<close> holds the scopes fired so far in this pass and \<open>i\<close> the index of the next scope.\<close>

fun propagate :: "ctxErr \<Rightarrow> nat list \<Rightarrow> nat \<Rightarrow> scope list \<Rightarrow> scope list" where
  "propagate e F i [] = []"
| "propagate e F i (s # ss) =
     (if err s = None \<and> (case parent s of None \<Rightarrow> False | Some p \<Rightarrow> p \<in> set F)
      then s\<lparr>err := Some e\<rparr> # propagate e (i # F) (Suc i) ss
      else s # propagate e F (Suc i) ss)"

text \<open>Modelled from the spec: a scope fires at most once; firing a scope that already has
  a cause changes nothing.\<close>

definition fire :: "nat \<Rightarrow> ctxErr \<Rightarrow> store \<Rightarrow> store" where
  "fire x e st =
     (if x < length st \<and> err (st ! x) = None
      then take x st @ (st ! x)\<lparr>err := Some e\<rparr> # propagate e [x] (Suc x) (drop (Suc x) st)
      else st)"

text \<open>Modelled from the spec: the \<^verbatim>\<open>cancelFn\<close> returned by \<^verbatim>\<open>deriveWithCancel\<close> (and by
  \<^verbatim>\<open>context.WithTimeout\<close>) forces the cause \<open>Canceled\<close>.\<close>

definition cancelFn :: "nat \<Rightarrow> store \<Rightarrow> store" where
  "cancelFn x st = fire x Canceled st"

text \<open>Modelled from the spec: the deadline of a scope elapses. Only a scope with an armed
  timer has a deadline of its own.\<close>

definition deadlineElapses :: "nat \<Rightarrow> store \<Rightarrow> store" where
  "deadlineElapses x st =
     (if x < length st \<and> timer (st ! x) then fire x DeadlineExceeded st else st)"

text \<open>Modelled from the spec: \<^verbatim>\<open>deriveWithCancel(parent)\<close> (\<^verbatim>\<open>context.WithCancel\<close>). The
  new scope is appended to the arena and its index returned. A child of a scope that has
  already fired is done from the start, with the parent's cause.\<close>

definition WithCancel :: "nat \<Rightarrow> store \<Rightarrow> nat \<times> store" where
  "WithCancel p st =
     (length st, st @ [\<lparr>parent = Some p, timer = False, err = Err st p\<rparr>])"

text \<open>Modelled from the spec: \<^verbatim>\<open>deriveWithDeadline(parent, duration)\<close>
  (\<^verbatim>\<open>context.WithTimeout\<close>), the duration in nanoseconds. With \<open>duration \<le> 0\<close> the scope
  is created with the cause \<open>DeadlineExceeded\<close>; under a parent that has fired it has the
  parent's cause; otherwise it is live and its timer is armed.\<close>

definition WithTimeout :: "nat \<Rightarrow> int \<Rightarrow> store \<Rightarrow> nat \<times> store" where
  "WithTimeout p d st =
     (length st,
      st @ [\<lparr>parent = Some p,
             timer = (0 < d \<and> Err st p = None),
             err = (if d \<le> 0 then Some DeadlineExceeded else Err st p)\<rparr>])"

text \<open>The operations by which a program or its environment acts on the scopes.\<close>

datatype scopeOp =
    CancelFn nat
  | DeadlineElapses nat
  | DeriveWithCancel nat
  | DeriveWithDeadline nat int

fun applyOp :: "scopeOp \<Rightarrow> store \<Rightarrow> store" where
  "applyOp (CancelFn x) st = cancelFn x st"
| "applyOp (DeadlineElapses x) st = deadlineElapses x st"
| "applyOp (DeriveWithCancel p) st = snd (WithCancel p st)"
| "applyOp (DeriveWithDeadline p d) st = snd (WithTimeout p d st)"

fun applyOps :: "scopeOp list \<Rightarrow> store \<Rightarrow> store" where
  "applyOps [] st = st"
| "applyOps (x # xs) st = applyOps xs (applyOp x st)"

section \<open>The two-task group\<close>

text \<open>
  \<^verbatim>\<open>simTwoTasks\<close> (echoserver.go, lines 32 to 70) starts two goroutines and collects one
  error from each over the unbuffered channel \<^verbatim>\<open>collectErrs\<close>. It is modelled as a
  transition system: every statement of the three goroutines is one step, a schedule is
  the list of actors that move, and a step that cannot be taken (a goroutine blocked on
  \<^verbatim>\<open><-ctx.Done()\<close> or on the channel) is \<open>None\<close>. A send and the receive that takes it
  are one step, made by the sender while the collector waits at its receive. The calls of
  \<^verbatim>\<open>log.Printf\<close> have no effect on the result and are left out.

  Besides the goroutines, the environment moves: the timer of task one goes off, the
  caller cancels the request scope, or the deadline of the request scope elapses.
\<close>

datatype actor = Handler | TaskOne | TaskTwo | Timer | CallerCancels | RequestDeadline

text \<open>Task one, lines 43 to 48: \<^verbatim>\<open>WithTimeout\<close>, \<^verbatim>\<open><-ctx.Done()\<close>, \<^verbatim>\<open>cancel()\<close>,
  \<^verbatim>\<open>err := ctx.Err()\<close>, \<^verbatim>\<open>collectErrs <- err\<close>.\<close>

datatype taskOnePc = One_WithTimeout | One_Done | One_cancel | One_Err | One_send | One_exit

text \<open>Task two, lines 53 to 56: \<^verbatim>\<open><-ctxWithCancel.Done()\<close>, \<^verbatim>\<open>err := ctxWithCancel.Err()\<close>,
  \<^verbatim>\<open>collectErrs <- err\<close>.\<close>

datatype taskTwoPc = Two_Done | Two_Err | Two_send | Two_exit

text \<open>The collector, lines 60 to 69: the receive of line 62, the test of line 63 with the
  loop increment, and the return with the deferred \<^verbatim>\<open>cancel()\<close> of line 37.\<close>

datatype parentPc = P_recv | P_check | P_return | P_exit

record state =
  scopes :: store
  ctxWithCancel :: nat
  ctxOne :: "nat option"
  pcOne :: taskOnePc
  errOne :: "ctxErr option"
  pcTwo :: taskTwoPc
  errTwo :: "ctxErr option"
  pcParent :: parentPc
  idx :: nat
  lastErr :: "ctxErr option"
  collected :: "ctxErr option list"

text \<open>\<open>collected\<close> is a history variable: the values received on \<^verbatim>\<open>collectErrs\<close>, in
  the order in which the tasks reported. The program does not read it.\<close>

definition numTasks :: nat where
  "numTasks = 2"

text \<open>The request scope \<^verbatim>\<open>ctx\<close> handed to the handler is scope 0 of the arena; \<open>r\<close> is its
  cause when the handler is entered. Its own ancestors are not modelled: when one of them
  fires, the request scope fires, which is what the two environment events do.\<close>

definition requestCtx :: nat where
  "requestCtx = 0"

definition requestScope :: "ctxErr option \<Rightarrow> store" where
  "requestScope r = [\<lparr>parent = None, timer = False, err = r\<rparr>]"

text \<open>Lines 33 to 57: the derived scope \<^verbatim>\<open>ctxWithCancel\<close> and the two goroutines, each at
  its first statement; the collector enters its loop with \<open>i = 0\<close>.\<close>

definition simTwoTasks_init :: "ctxErr option \<Rightarrow> state" where
  "simTwoTasks_init r =
     (let (c, st) = WithCancel requestCtx (requestScope r)
      in \<lparr>scopes = st, ctxWithCancel = c, ctxOne = None,
          pcOne = One_WithTimeout, errOne = None,
          pcTwo = Two_Done, errTwo = None,
          pcParent = (if 0 < numTasks then P_recv else P_return),
          idx = 0, lastErr = None, collected = []\<rparr>)"

definition stepOne :: "state \<Rightarrow> state option" where
  "stepOne s =
     (case pcOne s of
        One_WithTimeout \<Rightarrow>
          (let (c, st) = WithTimeout (ctxWithCancel s) 10 (scopes s)
           in Some (s\<lparr>scopes := st, ctxOne := Some c, pcOne := One_Done\<rparr>))
      | One_exit \<Rightarrow> None
      | _ \<Rightarrow>
          (case ctxOne s of
             None \<Rightarrow> None
           | Some c \<Rightarrow>
               (case pcOne s of
                  One_Done \<Rightarrow> if isDone (scopes s) c then Some (s\<lparr>pcOne := One_cancel\<rparr>) else None
                | One_cancel \<Rightarrow> Some (s\<lparr>scopes := cancelFn c (scopes s), pcOne := One_Err\<rparr>)
                | One_Err \<Rightarrow> Some (s\<lparr>errOne := Err (scopes s) c, pcOne := One_send\<rparr>)
                | One_send \<Rightarrow>
                    if pcParent s = P_recv
                    then Some (s\<lparr>lastErr := errOne s, collected := collected s @ [errOne s],
                                 pcParent := P_check, pcOne := One_exit\<rparr>)
                    else None
                | _ \<Rightarrow> None)))"

definition stepTwo :: "state \<Rightarrow> state option" where
  "stepTwo s =
     (case pcTwo s of
        Two_Done \<Rightarrow>
          if isDone (scopes s) (ctxWithCancel s) then Some (s\<lparr>pcTwo := Two_Err\<rparr>) else None
      | Two_Err \<Rightarrow> Some (s\<lparr>errTwo := Err (scopes s) (ctxWithCancel s), pcTwo := Two_send\<rparr>)
      | Two_send \<Rightarrow>
          if pcParent s = P_recv
          then Some (s\<lparr>lastErr := errTwo s, collected := collected s @ [errTwo s],
                       pcParent := P_check, pcTwo := Two_exit\<rparr>)
          else None
      | Two_exit \<Rightarrow> None)"

definition stepParent :: "state \<Rightarrow> state option" where
  "stepParent s =
     (case pcParent s of
        P_recv \<Rightarrow> None
      | P_check \<Rightarrow>
          (let st = (if lastErr s \<noteq> None then cancelFn (ctxWithCancel s) (scopes s)
                     else scopes s);
               i' = idx s + 1
           in Some (s\<lparr>scopes := st, idx := i',
                      pcParent := (if i' < numTasks then P_recv else P_return)\<rparr>))
      | P_return \<Rightarrow>
          Some (s\<lparr>scopes := cancelFn (ctxWithCancel s) (scopes s), pcParent := P_exit\<rparr>)
      | P_exit \<Rightarrow> None)"

text \<open>The timer set by \<^verbatim>\<open>WithTimeout\<close> goes off: possible once, while the scope is live.\<close>

definition stepTimer :: "state \<Rightarrow> state option" where
  "stepTimer s =
     (case ctxOne s of
        None \<Rightarrow> None
      | Some c \<Rightarrow>
          if c < length (scopes s) \<and> timer (scopes s ! c) \<and> \<not> isDone (scopes s) c
          then Some (s\<lparr>scopes := deadlineElapses c (scopes s)\<rparr>)
          else None)"

text \<open>The request scope fires, with the given cause: possible while it is live.\<close>

definition stepRequest :: "ctxErr \<Rightarrow> state \<Rightarrow> state option" where
  "stepRequest e s =
     (if isDone (scopes s) requestCtx then None
      else Some (s\<lparr>scopes := fire requestCtx e (scopes s)\<rparr>))"

fun step :: "actor \<Rightarrow> state \<Rightarrow> state option" where
  "step Handler s = stepParent s"
| "step TaskOne s = stepOne s"
| "step TaskTwo s = stepTwo s"
| "step Timer s = stepTimer s"
| "step CallerCancels s = stepRequest Canceled s"
| "step RequestDeadline s = stepRequest DeadlineExceeded s"

fun run :: "actor list \<Rightarrow> state \<Rightarrow> state option" where
  "run [] s = Some s"
| "run (a # as) s = (case step a s of None \<Rightarrow> None | Some s' \<Rightarrow> run as s')"

text \<open>\<^verbatim>\<open>simTwoTasks(ctx)\<close> under a schedule: \<open>Some\<close> of the returned error when the schedule
  takes the collector to its return, \<open>None\<close> when the schedule asks a blocked actor to
  move or stops before the return.\<close>

definition simTwoTasks :: "actor list \<Rightarrow> ctxErr option \<Rightarrow> ctxErr option option" where
  "simTwoTasks sched r =
     (case run sched (simTwoTasks_init r) of
        None \<Rightarrow> None
      | Some s \<Rightarrow> if pcParent s = P_exit then Some (lastErr s) else None)"

text \<open>A schedule in which the request scope does not fire.\<close>

definition quiet :: "actor list \<Rightarrow> bool" where
  "quiet sched = (CallerCancels \<notin> set sched \<and> RequestDeadline \<notin> set sched)"

section \<open>The handler\<close>

text \<open>The branch \<^verbatim>\<open>RETURN_CONTEXT_DEADLINE_EXCEEDED\<close> of \<^verbatim>\<open>Echo\<close>, lines 89 to 95, runs in the
  handler's goroutine alone, against the same environment.\<close>

datatype deadlinePc = D_WithTimeout | D_Done | D_cancel | D_Err | D_return

record dstate =
  dscopes :: store
  dctx :: "nat option"
  dpc :: deadlinePc
  derr :: "ctxErr option"

definition deadline_init :: "ctxErr option \<Rightarrow> dstate" where
  "deadline_init r = \<lparr>dscopes = requestScope r, dctx = None, dpc = D_WithTimeout, derr = None\<rparr>"

definition dstepHandler :: "dstate \<Rightarrow> dstate option" where
  "dstepHandler s =
     (case dpc s of
        D_WithTimeout \<Rightarrow>
          (let (c, st) = WithTimeout requestCtx 10 (dscopes s)
           in Some (s\<lparr>dscopes := st, dctx := Some c, dpc := D_Done\<rparr>))
      | D_return \<Rightarrow> None
      | _ \<Rightarrow>
          (case dctx s of
             None \<Rightarrow> None
           | Some c \<Rightarrow>
               (case dpc s of
                  D_Done \<Rightarrow> if isDone (dscopes s) c then Some (s\<lparr>dpc := D_cancel\<rparr>) else None
                | D_cancel \<Rightarrow> Some (s\<lparr>dscopes := cancelFn c (dscopes s), dpc := D_Err\<rparr>)
                | D_Err \<Rightarrow> Some (s\<lparr>derr := Err (dscopes s) c, dpc := D_return\<rparr>)
                | _ \<Rightarrow> None)))"

definition dstepTimer :: "dstate \<Rightarrow> dstate option" where
  "dstepTimer s =
     (case dctx s of
        None \<Rightarrow> None
      | Some c \<Rightarrow>
          if c < length (dscopes s) \<and> timer (dscopes s ! c) \<and> \<not> isDone (dscopes s) c
          then Some (s\<lparr>dscopes := deadlineElapses c (dscopes s)\<rparr>)
          else None)"

definition dstepRequest :: "ctxErr \<Rightarrow> dstate \<Rightarrow> dstate option" where
  "dstepRequest e s =
     (if isDone (dscopes s) requestCtx then None
      else Some (s\<lparr>dscopes := fire requestCtx e (dscopes s)\<rparr>))"

fun dstep :: "actor \<Rightarrow> dstate \<Rightarrow> dstate option" where
  "dstep Handler s = dstepHandler s"
| "dstep Timer s = dstepTimer s"
| "dstep CallerCancels s = dstepRequest Canceled s"
| "dstep RequestDeadline s = dstepRequest DeadlineExceeded s"
| "dstep TaskOne s = None"
| "dstep TaskTwo s = None"

fun drun :: "actor list \<Rightarrow> dstate \<Rightarrow> dstate option" where
  "drun [] s = Some s"
| "drun (a # as) s = (case dstep a s of None \<Rightarrow> None | Some s' \<Rightarrow> drun as s')"

definition deadlineAction :: "actor list \<Rightarrow> ctxErr option \<Rightarrow> ctxErr option option" where
  "deadlineAction sched r =
     (case drun sched (deadline_init r) of
        None \<Rightarrow> None
      | Some s \<Rightarrow> if dpc s = D_return then Some (derr s) else None)"

text \<open>Durations are \<^verbatim>\<open>time.Duration\<close> values, nanoseconds in an \<^verbatim>\<open>int64\<close>. The handler
  only compares them, so they are integers here.\<close>

type_synonym Duration = int

record server =
  responseSleep :: Duration
  requestID :: "64 word"

definition newServer :: "Duration \<Rightarrow> server" where
  "newServer d = \<lparr>responseSleep = d, requestID = 0\<rparr>"

text \<open>The messages of \<^verbatim>\<open>echopb/echo.pb.go\<close>. \<^verbatim>\<open>ServerAction\<close> is an \<^verbatim>\<open>int32\<close>, and a
  request can carry a number that is none of the three named values. The field
  \<^verbatim>\<open>ServerSleep\<close> is a pointer to a \<^verbatim>\<open>durationpb.Duration\<close>; it is held here as the
  \<^verbatim>\<open>time.Duration\<close> it stands for, \<open>None\<close> being the nil pointer.\<close>

type_synonym ServerAction = "32 word"

definition ServerAction_UNSPECIFIED :: ServerAction where
  "ServerAction_UNSPECIFIED = 0"

definition ServerAction_RETURN_CONTEXT_DEADLINE_EXCEEDED :: ServerAction where
  "ServerAction_RETURN_CONTEXT_DEADLINE_EXCEEDED = 1"

definition ServerAction_RETURN_CONTEXT_CANCELED :: ServerAction where
  "ServerAction_RETURN_CONTEXT_CANCELED = 2"

record EchoRequest =
  Input :: string
  ServerSleep :: "Duration option"
  Action :: ServerAction

record EchoResponse =
  Output :: string

text \<open>\<^verbatim>\<open>AsDuration\<close> of a nil \<^verbatim>\<open>*durationpb.Duration\<close> is zero.\<close>

definition AsDuration :: "Duration option \<Rightarrow> Duration" where
  "AsDuration d = (case d of None \<Rightarrow> 0 | Some x \<Rightarrow> x)"

datatype code =
  codes_OK | codes_Canceled | codes_InvalidArgument | codes_DeadlineExceeded

text \<open>The errors a handler returns: a context error, or a status made by
  \<^verbatim>\<open>status.Errorf\<close> from a code, a format string and its arguments.\<close>

datatype error = ContextError ctxErr | StatusError code string "int list"

record EchoResult =
  srv :: server
  slept :: "Duration option"
  resp :: "EchoResponse option"
  rerr :: "error option"

text \<open>\<^verbatim>\<open>Echo\<close>, lines 72 to 124. \<open>r\<close> is the cause of the request scope at entry and
  \<open>sched\<close> the schedule of the goroutines and the environment during the call; the result
  is \<open>None\<close> when the call does not return under that schedule. \<open>slept\<close> is the argument
  of \<^verbatim>\<open>time.Sleep\<close>, \<open>None\<close> when the handler does not sleep.\<close>

definition Echo :: "actor list \<Rightarrow> server \<Rightarrow> ctxErr option \<Rightarrow> EchoRequest \<Rightarrow> EchoResult option" where
  "Echo sched s r request =
     (let s' = s\<lparr>requestID := requestID s + 1\<rparr> in
      if Action request = ServerAction_UNSPECIFIED then
        (let sleep = responseSleep s;
             requestSleep = AsDuration (ServerSleep request);
             sleep = (if sleep < requestSleep then requestSleep else sleep)
         in Some \<lparr>srv = s', slept = Some sleep,
                  resp = Some \<lparr>Output = ''echoed: '' @ Input request\<rparr>, rerr = None\<rparr>)
      else if Action request = ServerAction_RETURN_CONTEXT_DEADLINE_EXCEEDED then
        (case deadlineAction sched r of
           None \<Rightarrow> None
         | Some e \<Rightarrow>
             Some \<lparr>srv = s', slept = None, resp = None, rerr = map_option ContextError e\<rparr>)
      else if Action request = ServerAction_RETURN_CONTEXT_CANCELED then
        (case simTwoTasks sched r of
           None \<Rightarrow> None
         | Some e \<Rightarrow>
             Some \<lparr>srv = s', slept = None, resp = None, rerr = map_option ContextError e\<rparr>)
      else
        Some \<lparr>srv = s', slept = None, resp = None,
              rerr = Some (StatusError codes_InvalidArgument ''unknown action value %d''
                             [sint (Action request)])\<rparr>)"

text \<open>Modelled from the spec: the server-side mapping of section 4.3, which the gRPC
  library (missing from the sources) applies to what the handler returns.\<close>

fun wireStatus :: "error option \<Rightarrow> code" where
  "wireStatus None = codes_OK"
| "wireStatus (Some (ContextError DeadlineExceeded)) = codes_DeadlineExceeded"
| "wireStatus (Some (ContextError Canceled)) = codes_Canceled"
| "wireStatus (Some (StatusError c msg args)) = c"

section \<open>The caller boundary\<close>

text \<open>Modelled from the spec: a call on the caller's side (section 4.3, last rule), which
  in the repository is the library's client behind \<^verbatim>\<open>client.Echo\<close> and is missing from
  the sources. \<open>ctx\<close> is the cause of the caller's scope when the call is issued,
  \<open>delivered\<close> the requests that have reached the service boundary so far, and
  \<open>service\<close> what the service boundary answers to a request that reaches it. A scope
  that fires while the call is in flight is not modelled.\<close>

fun localStatus :: "ctxErr \<Rightarrow> code" where
  "localStatus Canceled = codes_Canceled"
| "localStatus DeadlineExceeded = codes_DeadlineExceeded"

definition client_Echo ::
  "(EchoRequest \<Rightarrow> EchoResponse option \<times> code) \<Rightarrow> ctxErr option \<Rightarrow> EchoRequest \<Rightarrow>
     EchoRequest list \<Rightarrow> EchoRequest list \<times> EchoResponse option \<times> code" where
  "client_Echo service ctx req delivered =
     (case ctx of
        Some e \<Rightarrow> (delivered, None, localStatus e)
      | None \<Rightarrow> (delivered @ [req], service req))"

text \<open>The last two scenarios of the client's \<^verbatim>\<open>main\<close> (lines 173 to 203 of the client
  source): the check that the scope has fired, the call, and the check of the status.
  Each \<^verbatim>\<open>panic\<close> is an \<open>Inl\<close>.\<close>

datatype panic = Panic string

definition alreadyCanceled ::
  "(EchoRequest \<Rightarrow> EchoResponse option \<times> code) \<Rightarrow> string \<Rightarrow> ctxErr option \<Rightarrow>
     EchoRequest list \<Rightarrow> panic + EchoRequest list" where
  "alreadyCanceled service input ctxWithCancel' delivered =
     (if ctxWithCancel' \<noteq> Some Canceled
      then Inl (Panic ''expected context to be already canceled'')
      else
        (let req = \<lparr>Input = input, ServerSleep = None, Action = ServerAction_UNSPECIFIED\<rparr>;
             (delivered', resp, c) = client_Echo service ctxWithCancel' req delivered
         in if c = codes_Canceled then Inr delivered'
            else Inl (Panic ''expected canceled error'')))"

definition alreadyTimedOut ::
  "(EchoRequest \<Rightarrow> EchoResponse option \<times> code) \<Rightarrow> string \<Rightarrow> ctxErr option \<Rightarrow>
     EchoRequest list \<Rightarrow> panic + EchoRequest list" where
  "alreadyTimedOut service input ctxTimeout delivered =
     (if ctxTimeout \<noteq> Some DeadlineExceeded
      then Inl (Panic ''expected context to be already timed out'')
      else
        (let req = \<lparr>Input = input, ServerSleep = None, Action = ServerAction_UNSPECIFIED\<rparr>;
             (delivered', resp, c) = client_Echo service ctxTimeout req delivered
         in if c = codes_DeadlineExceeded then Inr delivered'
            else Inl (Panic ''expected deadline exceeded error'')))"

section \<open>Invariants of the two-task group\<close>

text \<open>
  The definitions of this section are not part of the program: they describe the states
  that the transition system of \<^verbatim>\<open>simTwoTasks\<close> can reach.

  While the group runs, the arena holds the request scope, \<^verbatim>\<open>ctxWithCancel\<close> and, once
  task one has derived it, the scope of task one. \<open>orElse x e\<close> is the cause of a scope
  with cause \<open>x\<close> after an attempt to fire it with \<open>e\<close>.
\<close>

definition orElse :: "ctxErr option \<Rightarrow> ctxErr \<Rightarrow> ctxErr option" where
  "orElse x e = (case x of None \<Rightarrow> Some e | Some y \<Rightarrow> Some y)"

definition shape2 :: "ctxErr option \<Rightarrow> ctxErr option \<Rightarrow> store" where
  "shape2 r w = [\<lparr>parent = None, timer = False, err = r\<rparr>, \<lparr>parent = Some 0, timer = False, err = w\<rparr>]"

definition shape3 :: "ctxErr option \<Rightarrow> ctxErr option \<Rightarrow> bool \<Rightarrow> ctxErr option \<Rightarrow> store" where
  "shape3 r w tm t = shape2 r w @ [\<lparr>parent = Some 1, timer = tm, err = t\<rparr>]"

text \<open>The arena has one of the two shapes, the handles are the indices 1 and 2, a scope
  under a scope that has fired has fired, and the scope of task one is live only while
  its timer is armed.\<close>

definition shaped :: "state \<Rightarrow> bool" where
  "shaped s =
     (ctxWithCancel s = 1 \<and>
      (isDone (scopes s) 0 \<longrightarrow> isDone (scopes s) 1) \<and>
      (if pcOne s = One_WithTimeout
       then ctxOne s = None \<and> scopes s = shape2 (Err (scopes s) 0) (Err (scopes s) 1)
       else ctxOne s = Some 2 \<and>
            scopes s = shape3 (Err (scopes s) 0) (Err (scopes s) 1) (timer (scopes s ! 2)) (Err (scopes s) 2) \<and>
            (isDone (scopes s) 1 \<longrightarrow> isDone (scopes s) 2) \<and>
            (timer (scopes s ! 2) \<or> isDone (scopes s) 2)))"

text \<open>What the program counters say about the scopes, the local variables and the
  errors collected so far.\<close>

definition sound :: "state \<Rightarrow> bool" where
  "sound s =
     ((pcOne s \<noteq> One_WithTimeout \<and> pcOne s \<noteq> One_Done \<longrightarrow> Err (scopes s) 2 \<noteq> None) \<and>
      (pcOne s = One_send \<or> pcOne s = One_exit \<longrightarrow> errOne s = Err (scopes s) 2) \<and>
      (pcTwo s \<noteq> Two_Done \<longrightarrow> Err (scopes s) (Suc 0) \<noteq> None) \<and>
      (pcTwo s = Two_send \<or> pcTwo s = Two_exit \<longrightarrow> errTwo s = Err (scopes s) (Suc 0)) \<and>
      length (collected s) =
        (if pcOne s = One_exit then 1 else 0) + (if pcTwo s = Two_exit then 1 else 0) \<and>
      idx s + (if pcParent s = P_check then 1 else 0) = length (collected s) \<and>
      (pcParent s = P_recv \<longrightarrow> idx s < numTasks) \<and>
      (pcParent s = P_return \<or> pcParent s = P_exit \<longrightarrow> idx s = numTasks) \<and>
      (collected s \<noteq> [] \<longrightarrow> lastErr s = last (collected s)) \<and>
      (\<forall>e \<in> set (collected s). e \<noteq> None) \<and>
      (pcParent s \<noteq> P_check \<and> collected s \<noteq> [] \<longrightarrow> Err (scopes s) (Suc 0) \<noteq> None))"

text \<open>While the request scope is live, the shared scope can only have been cancelled by
  the collector, after a first error was collected, and task two reports last.\<close>

definition calm :: "state \<Rightarrow> bool" where
  "calm s =
     (Err (scopes s) 0 = None \<longrightarrow>
        (Err (scopes s) (Suc 0) \<noteq> None \<longrightarrow> Err (scopes s) (Suc 0) = Some Canceled \<and> collected s \<noteq> []) \<and>
        (pcTwo s = Two_exit \<longrightarrow> pcOne s = One_exit \<and> lastErr s = Some Canceled))"

definition inv :: "state \<Rightarrow> bool" where
  "inv s = (shaped s \<and> sound s \<and> calm s)"

text \<open>A bound on the number of steps that are left: the statements each goroutine has
  still to run, and one for each scope that the environment can still fire.\<close>

fun rankOne :: "taskOnePc \<Rightarrow> nat" where
  "rankOne One_WithTimeout = 5"
| "rankOne One_Done = 4"
| "rankOne One_cancel = 3"
| "rankOne One_Err = 2"
| "rankOne One_send = 1"
| "rankOne One_exit = 0"

fun rankTwo :: "taskTwoPc \<Rightarrow> nat" where
  "rankTwo Two_Done = 3"
| "rankTwo Two_Err = 2"
| "rankTwo Two_send = 1"
| "rankTwo Two_exit = 0"

fun rankParent :: "parentPc \<Rightarrow> nat \<Rightarrow> nat" where
  "rankParent P_recv i = 2 * (numTasks - i) + 1"
| "rankParent P_check i = 2 * (numTasks - i)"
| "rankParent P_return i = 1"
| "rankParent P_exit i = 0"

definition live :: "ctxErr option \<Rightarrow> nat" where
  "live x = (case x of None \<Rightarrow> 1 | Some e \<Rightarrow> 0)"

definition todo :: "state \<Rightarrow> nat" where
  "todo s = rankOne (pcOne s) + rankTwo (pcTwo s) + rankParent (pcParent s) (idx s)
            + live (Err (scopes s) 2) + live (Err (scopes s) 0)"

text \<open>While the request scope is live, the scope of task one can only have fired by its
  timer, task one reports \<^verbatim>\<open>DeadlineExceeded\<close> first and task two \<^verbatim>\<open>Canceled\<close> after it.\<close>

definition ordered :: "state \<Rightarrow> bool" where
  "ordered s =
     (Err (scopes s) 0 = None \<longrightarrow>
        (Err (scopes s) 2 \<noteq> None \<longrightarrow> Err (scopes s) 2 = Some DeadlineExceeded) \<and>
        collected s =
          (if pcOne s = One_exit then [Some DeadlineExceeded] else []) @
          (if pcTwo s = Two_exit then [Some Canceled] else []))"

section \<open>Invariants of the deadline branch\<close>

text \<open>The arena of the branch \<^verbatim>\<open>RETURN_CONTEXT_DEADLINE_EXCEEDED\<close> holds the request scope
  and, once derived, the scope with the timeout. That scope has the cause \<open>Canceled\<close>
  only if the request scope has been cancelled.\<close>

definition dshape :: "ctxErr option \<Rightarrow> bool \<Rightarrow> ctxErr option \<Rightarrow> store" where
  "dshape r tm d = [\<lparr>parent = None, timer = False, err = r\<rparr>, \<lparr>parent = Some 0, timer = tm, err = d\<rparr>]"

definition dinv :: "dstate \<Rightarrow> bool" where
  "dinv s =
     ((if dpc s = D_WithTimeout
       then dctx s = None \<and> dscopes s = requestScope (Err (dscopes s) 0)
       else dctx s = Some 1 \<and>
            dscopes s = dshape (Err (dscopes s) 0) (timer (dscopes s ! 1)) (Err (dscopes s) 1) \<and>
            (timer (dscopes s ! 1) \<or> Err (dscopes s) 1 \<noteq> None)) \<and>
      (dpc s = D_cancel \<or> dpc s = D_Err \<or> dpc s = D_return \<longrightarrow> Err (dscopes s) 1 \<noteq> None) \<and>
      (dpc s = D_return \<longrightarrow> derr s = Err (dscopes s) 1) \<and>
      (Err (dscopes s) 1 = Some Canceled \<longrightarrow> Err (dscopes s) 0 = Some Canceled))"

fun rankD :: "deadlinePc \<Rightarrow> nat" where
  "rankD D_WithTimeout = 4"
| "rankD D_Done = 3"
| "rankD D_cancel = 2"
| "rankD D_Err = 1"
| "rankD D_return = 0"

definition dtodo :: "dstate \<Rightarrow> nat" where
  "dtodo s = rankD (dpc s) + live (Err (dscopes s) 1)"

section \<open>Properties of the scopes\<close>

lemma length_propagate [simp]: "length (propagate e F i ss) = length ss"
  by (induction ss arbitrary: F i) auto

lemma length_fire [simp]: "length (fire x e st) = length st"
  by (auto simp: fire_def)

lemma propagate_keeps:
  "j < length ss \<Longrightarrow> err (ss ! j) = Some c \<Longrightarrow> err (propagate e F i ss ! j) = Some c"
proof (induction ss arbitrary: F i j)
  case Nil
  then show ?case by simp
next
  case (Cons s ss)
  then show ?case by (cases j) auto
qed

lemma fire_keeps:
  assumes "j < length st" and "err (st ! j) = Some c"
  shows "err (fire x e st ! j) = Some c"
proof (cases "x < length st \<and> err (st ! x) = None")
  case False
  then show ?thesis using assms by (auto simp: fire_def)
next
  case True
  then have neq: "j \<noteq> x" using assms by auto
  show ?thesis
  proof (cases "j < x")
    case True
    with \<open>x < length st \<and> err (st ! x) = None\<close> assms show ?thesis
      by (simp add: fire_def nth_append)
  next
    case False
    with neq have gt: "x < j" by simp
    then obtain k where k: "j = Suc x + k" using less_iff_Suc_add by auto
    with assms have "k < length (drop (Suc x) st)" and "err (drop (Suc x) st ! k) = Some c"
      by auto
    then have "err (propagate e [x] (Suc x) (drop (Suc x) st) ! k) = Some c"
      by (rule propagate_keeps)
    with True k show ?thesis
      by (simp add: fire_def nth_append)
  qed
qed

lemma fire_target_done:
  "x < length st \<Longrightarrow> err (fire x e st ! x) \<noteq> None"
  by (auto simp: fire_def nth_append)

lemma fire_idem: "fire x e' (fire x e st) = fire x e st"
proof (cases "x < length st")
  case True
  then have "err (fire x e st ! x) \<noteq> None" by (rule fire_target_done)
  then show ?thesis by (auto simp: fire_def [of x e' "fire x e st"])
next
  case False
  then show ?thesis by (simp add: fire_def)
qed

lemma propagate_fired:
  "j < length ss \<Longrightarrow> err (ss ! j) = None \<Longrightarrow> err (propagate e F i ss ! j) \<noteq> None \<Longrightarrow>
   err (propagate e F i ss ! j) = Some e \<and>
   (\<exists>p. parent (ss ! j) = Some p \<and>
        (p \<in> set F \<or> (\<exists>k<j. p = i + k \<and> err (ss ! k) = None \<and> err (propagate e F i ss ! k) = Some e)))"
proof (induction ss arbitrary: F i j)
  case Nil
  then show ?case by simp
next
  case (Cons s ss)
  show ?case
  proof (cases j)
    case 0
    with Cons.prems show ?thesis by (auto split: option.splits if_splits)
  next
    case (Suc j')
    let ?fired = "err s = None \<and> (case parent s of None \<Rightarrow> False | Some p \<Rightarrow> p \<in> set F)"
    let ?F = "if ?fired then i # F else F"
    have nxt: "\<And>m. propagate e F i (s # ss) ! Suc m = propagate e ?F (Suc i) ss ! m"
      by simp
    have eq: "propagate e F i (s # ss) ! j = propagate e ?F (Suc i) ss ! j'"
      using Suc nxt by simp
    from Cons.prems Suc have "j' < length ss" "err (ss ! j') = None" by auto
    moreover from Cons.prems eq have "err (propagate e ?F (Suc i) ss ! j') \<noteq> None" by simp
    ultimately have IH: "err (propagate e ?F (Suc i) ss ! j') = Some e \<and>
      (\<exists>p. parent (ss ! j') = Some p \<and>
        (p \<in> set ?F \<or> (\<exists>k<j'. p = Suc i + k \<and> err (ss ! k) = None \<and> err (propagate e ?F (Suc i) ss ! k) = Some e)))"
      by (rule Cons.IH)
    then obtain p where p: "parent (ss ! j') = Some p"
      and alt: "p \<in> set ?F \<or> (\<exists>k<j'. p = Suc i + k \<and> err (ss ! k) = None \<and> err (propagate e ?F (Suc i) ss ! k) = Some e)"
      by blast
    from alt have "p \<in> set F \<or> (\<exists>k<j. p = i + k \<and> err ((s # ss) ! k) = None \<and> err (propagate e F i (s # ss) ! k) = Some e)"
    proof
      assume "p \<in> set ?F"
      then show ?thesis 
      proof (cases ?fired)
        case True
        with \<open>p \<in> set ?F\<close> have "p = i \<or> p \<in> set F" by auto
        then show ?thesis
        proof
          assume "p = i"
          with True Suc have "0 < j \<and> p = i + 0 \<and> err ((s # ss) ! 0) = None \<and> err (propagate e F i (s # ss) ! 0) = Some e"
            by simp
          then show ?thesis by blast
        qed simp
      next
        case False
        with \<open>p \<in> set ?F\<close> show ?thesis by simp
      qed
    next
      assume "\<exists>k<j'. p = Suc i + k \<and> err (ss ! k) = None \<and> err (propagate e ?F (Suc i) ss ! k) = Some e"
      then obtain k where "k < j'" "p = Suc i + k" "err (ss ! k) = None" "err (propagate e ?F (Suc i) ss ! k) = Some e"
        by blast
      then have "Suc k < j \<and> p = i + Suc k \<and> err ((s # ss) ! Suc k) = None \<and> err (propagate e F i (s # ss) ! Suc k) = Some e"
        using Suc nxt [of k] by simp
      then show ?thesis by blast
    qed
    with p IH eq Suc show ?thesis by simp
  qed
qed

lemma fire_fired:
  assumes "j < length st" and "err (st ! j) = None" and "err (fire x e st ! j) \<noteq> None"
  shows "err (fire x e st ! j) = Some e \<and>
         (j = x \<or> (\<exists>p. parent (st ! j) = Some p \<and> p < j \<and> err (st ! p) = None \<and> err (fire x e st ! p) = Some e))"
proof -
  have guard: "x < length st \<and> err (st ! x) = None"
    using assms by (auto simp: fire_def split: if_splits)
  then have unfold: "fire x e st = take x st @ (st ! x)\<lparr>err := Some e\<rparr> # propagate e [x] (Suc x) (drop (Suc x) st)"
    by (simp add: fire_def)
  have atx: "err (fire x e st ! x) = Some e"
    using guard by (simp add: unfold nth_append)
  consider "j < x" | "j = x" | "x < j" by linarith
  then show ?thesis
  proof cases
    case 1
    with assms guard show ?thesis by (simp add: unfold nth_append)
  next
    case 2
    with atx show ?thesis by simp
  next
    case 3
    then obtain k where k: "j = Suc x + k" using less_iff_Suc_add by auto
    let ?ss = "drop (Suc x) st"
    have nth: "\<And>m. Suc x + m < length st \<Longrightarrow> fire x e st ! (Suc x + m) = propagate e [x] (Suc x) ?ss ! m"
      using guard by (simp add: unfold nth_append)
    from assms k have a: "k < length ?ss" "err (?ss ! k) = None" by auto
    from assms k nth have b: "err (propagate e [x] (Suc x) ?ss ! k) \<noteq> None" by simp
    from propagate_fired [OF a b] obtain p where
      e: "err (propagate e [x] (Suc x) ?ss ! k) = Some e" and p: "parent (?ss ! k) = Some p"
      and alt: "p \<in> set [x] \<or> (\<exists>m<k. p = Suc x + m \<and> err (?ss ! m) = None \<and> err (propagate e [x] (Suc x) ?ss ! m) = Some e)"
      by blast
    from alt have "p < j \<and> err (st ! p) = None \<and> err (fire x e st ! p) = Some e"
    proof
      assume "p \<in> set [x]"
      with 3 guard atx show ?thesis by simp
    next
      assume "\<exists>m<k. p = Suc x + m \<and> err (?ss ! m) = None \<and> err (propagate e [x] (Suc x) ?ss ! m) = Some e"
      then obtain m where m: "m < k" "p = Suc x + m" "err (?ss ! m) = None" "err (propagate e [x] (Suc x) ?ss ! m) = Some e"
        by blast
      with k assms(1) have "Suc x + m < length st" by simp
      with m k nth [of m] assms(1) show ?thesis by simp
    qed
    moreover from p k assms(1) have "parent (st ! j) = Some p" by simp
    moreover from e nth [of k] k assms(1) have "err (fire x e st ! j) = Some e" by simp
    ultimately show ?thesis by blast
  qed
qed

lemma Err_fire_keeps: "Err st x = Some c \<Longrightarrow> Err (fire y e st) x = Some c"
  by (auto simp: Err_def fire_keeps split: if_splits)

lemma Err_applyOp_keeps:
  assumes "Err st x = Some c"
  shows "Err (applyOp op st) x = Some c"
proof (cases op)
  case (CancelFn y)
  with assms show ?thesis by (simp add: cancelFn_def Err_fire_keeps)
next
  case (DeadlineElapses y)
  with assms show ?thesis by (simp add: deadlineElapses_def Err_fire_keeps)
next
  case (DeriveWithCancel p)
  with assms show ?thesis by (simp add: WithCancel_def Err_def nth_append split: if_splits)
next
  case (DeriveWithDeadline p d)
  with assms show ?thesis by (simp add: WithTimeout_def Err_def nth_append split: if_splits)
qed

lemma Err_applyOps_keeps: "Err st x = Some c \<Longrightarrow> Err (applyOps ops st) x = Some c"
  by (induction ops arbitrary: st) (simp_all add: Err_applyOp_keeps)

lemma Err_fire_fired:
  assumes "x < length st" and "Err st x = None" and "Err (fire y e st) x \<noteq> None"
  shows "Err (fire y e st) x = Some e \<and>
         (x = y \<or> (\<exists>p. parent (st ! x) = Some p \<and> p < x \<and> Err st p = None \<and> Err (fire y e st) p = Some e))"
proof -
  from assms have a: "err (st ! x) = None" and b: "err (fire y e st ! x) \<noteq> None"
    by (simp_all add: Err_def)
  from fire_fired [OF assms(1) a b]
  have e: "err (fire y e st ! x) = Some e"
    and alt: "x = y \<or> (\<exists>p. parent (st ! x) = Some p \<and> p < x \<and> err (st ! p) = None \<and> err (fire y e st ! p) = Some e)"
    by blast+
  from alt have "x = y \<or> (\<exists>p. parent (st ! x) = Some p \<and> p < x \<and> Err st p = None \<and> Err (fire y e st) p = Some e)"
  proof
    assume "x = y" then show ?thesis by simp
  next
    assume "\<exists>p. parent (st ! x) = Some p \<and> p < x \<and> err (st ! p) = None \<and> err (fire y e st ! p) = Some e"
    then obtain p where "parent (st ! x) = Some p" "p < x" "err (st ! p) = None" "err (fire y e st ! p) = Some e"
      by blast
    with assms(1) have "parent (st ! x) = Some p \<and> p < x \<and> Err st p = None \<and> Err (fire y e st) p = Some e"
      by (simp add: Err_def)
    then show ?thesis by blast
  qed
  with e assms(1) show ?thesis by (simp add: Err_def)
qed

lemma Err_applyOp_fired:
  assumes "x < length st" and "Err st x = None" and "Err (applyOp op st) x \<noteq> None"
  shows "\<exists>y. (op = CancelFn y \<and> Err (applyOp op st) x = Some Canceled \<or>
              op = DeadlineElapses y \<and> Err (applyOp op st) x = Some DeadlineExceeded) \<and>
             (x = y \<or> (\<exists>p. parent (st ! x) = Some p \<and> p < x \<and> Err st p = None \<and>
                          Err (applyOp op st) p = Err (applyOp op st) x))"
proof (cases op)
  case (CancelFn y)
  with assms have "Err (fire y Canceled st) x \<noteq> None" by (simp add: cancelFn_def)
  from Err_fire_fired [OF assms(1,2) this] show ?thesis
    unfolding CancelFn applyOp.simps cancelFn_def by auto
next
  case (DeadlineElapses y)
  with assms have eq: "deadlineElapses y st = fire y DeadlineExceeded st"
    by (cases "y < length st \<and> timer (st ! y)") (simp_all add: deadlineElapses_def)
  with assms DeadlineElapses have "Err (fire y DeadlineExceeded st) x \<noteq> None" by simp
  from Err_fire_fired [OF assms(1,2) this] show ?thesis
    unfolding DeadlineElapses applyOp.simps eq by auto
next
  case (DeriveWithCancel p)
  with assms show ?thesis by (simp add: WithCancel_def Err_def nth_append)
next
  case (DeriveWithDeadline p d)
  with assms show ?thesis by (simp add: WithTimeout_def Err_def nth_append)
qed

section \<open>Claims about the scopes and the caller boundary\<close>

text \<open>
  Claim C4. The terminal cause of a scope is write-once: a cause that is set survives
  every sequence of operations on the scopes, firing a scope a second time changes
  nothing, and a live scope gets a cause only from \<^verbatim>\<open>cancelFn\<close> or an elapsed deadline,
  on the scope itself or on an ancestor that fires in the same operation (its parent
  fires with it and takes the same cause).
\<close>

theorem scope_cause_write_once:
  "(Err st x = Some c \<longrightarrow> Err (applyOps ops st) x = Some c \<and> isDone (applyOps ops st) x)
   \<and> fire x e' (fire x e st) = fire x e st
   \<and> (z < length st \<and> \<not> isDone st z \<and> isDone (applyOp op st) z \<longrightarrow>
        (\<exists>y. (op = CancelFn y \<and> Err (applyOp op st) z = Some Canceled \<or>
              op = DeadlineElapses y \<and> Err (applyOp op st) z = Some DeadlineExceeded) \<and>
             (z = y \<or> (\<exists>p. parent (st ! z) = Some p \<and> p < z \<and> \<not> isDone st p \<and>
                          Err (applyOp op st) p = Err (applyOp op st) z))))"
proof (intro conjI impI)
  assume "Err st x = Some c"
  then show "Err (applyOps ops st) x = Some c" by (rule Err_applyOps_keeps)
  then show "isDone (applyOps ops st) x" by (simp add: isDone_def)
next
  show "fire x e' (fire x e st) = fire x e st" by (rule fire_idem)
next
  assume "z < length st \<and> \<not> isDone st z \<and> isDone (applyOp op st) z"
  then have "z < length st" "Err st z = None" "Err (applyOp op st) z \<noteq> None"
    by (simp_all add: isDone_def)
  from Err_applyOp_fired [OF this]
  show "\<exists>y. (op = CancelFn y \<and> Err (applyOp op st) z = Some Canceled \<or>
              op = DeadlineElapses y \<and> Err (applyOp op st) z = Some DeadlineExceeded) \<and>
             (z = y \<or> (\<exists>p. parent (st ! z) = Some p \<and> p < z \<and> \<not> isDone st p \<and>
                          Err (applyOp op st) p = Err (applyOp op st) z))"
    by (simp add: isDone_def)
qed

theorem scope_cause_write_once_witness:
  "Err [\<lparr>parent = None, timer = False, err = None\<rparr>,
          \<lparr>parent = Some 0, timer = False, err = Some Canceled\<rparr>,
          \<lparr>parent = Some 0, timer = False, err = None\<rparr>,
          \<lparr>parent = Some 2, timer = True, err = None\<rparr>] 1 = Some Canceled \<and>
   Err (applyOps [DeadlineElapses 1, CancelFn 0]
         [\<lparr>parent = None, timer = False, err = None\<rparr>,
          \<lparr>parent = Some 0, timer = False, err = Some Canceled\<rparr>,
          \<lparr>parent = Some 0, timer = False, err = None\<rparr>,
          \<lparr>parent = Some 2, timer = True, err = None\<rparr>]) 1 = Some Canceled \<and>
   (3::nat) < length [\<lparr>parent = None, timer = False, err = None\<rparr>,
          \<lparr>parent = Some 0, timer = False, err = Some Canceled\<rparr>,
          \<lparr>parent = Some 0, timer = False, err = None\<rparr>,
          \<lparr>parent = Some 2, timer = True, err = None\<rparr>] \<and>
   \<not> isDone [\<lparr>parent = None, timer = False, err = None\<rparr>,
          \<lparr>parent = Some 0, timer = False, err = Some Canceled\<rparr>,
          \<lparr>parent = Some 0, timer = False, err = None\<rparr>,
          \<lparr>parent = Some 2, timer = True, err = None\<rparr>] 3 \<and>
   isDone (applyOp (CancelFn 2)
         [\<lparr>parent = None, timer = False, err = None\<rparr>,
          \<lparr>parent = Some 0, timer = False, err = Some Canceled\<rparr>,
          \<lparr>parent = Some 0, timer = False, err = None\<rparr>,
          \<lparr>parent = Some 2, timer = True, err = None\<rparr>]) 3 \<and>
   Err (applyOp (CancelFn 2)
         [\<lparr>parent = None, timer = False, err = None\<rparr>,
          \<lparr>parent = Some 0, timer = False, err = Some Canceled\<rparr>,
          \<lparr>parent = Some 0, timer = False, err = None\<rparr>,
          \<lparr>parent = Some 2, timer = True, err = None\<rparr>]) 3 = Some Canceled"
proof -
  let ?st = "[\<lparr>parent = None, timer = False, err = None\<rparr>,
          \<lparr>parent = Some 0, timer = False, err = Some Canceled\<rparr>,
          \<lparr>parent = Some 0, timer = False, err = None\<rparr>,
          \<lparr>parent = Some 2, timer = True, err = None\<rparr>]"
  have h1: "Err ?st 1 = Some Canceled" by (simp add: Err_def)
  have h3: "(3::nat) < length ?st \<and> \<not> isDone ?st 3 \<and> isDone (applyOp (CancelFn 2) ?st) 3"
    by (simp add: isDone_def Err_def cancelFn_def fire_def numeral_3_eq_3 numeral_2_eq_2)
  from scope_cause_write_once [of ?st 1 Canceled "[DeadlineElapses 1, CancelFn 0]" Canceled Canceled 3 "CancelFn 2"]
    h1 h3
  show ?thesis by simp
qed

text \<open>
  Claim C5. A call issued on a scope that has already fired does not reach the service
  boundary: the list of delivered requests is unchanged, there is no response, and the
  status is the one of the local cause. The two scenarios of the client that make such
  calls run through without a panic.
\<close>

theorem fired_scope_call_stays_local:
  "client_Echo service (Some e) req delivered = (delivered, None, localStatus e) \<and>
   localStatus Canceled = codes_Canceled \<and>
   localStatus DeadlineExceeded = codes_DeadlineExceeded \<and>
   alreadyCanceled service input (Some Canceled) delivered = Inr delivered \<and>
   alreadyTimedOut service input (Some DeadlineExceeded) delivered = Inr delivered"
  by (simp add: client_Echo_def alreadyCanceled_def alreadyTimedOut_def)

section \<open>Claims about the branches of the handler that do not wait\<close>

text \<open>
  Claim C7. A request with action \<^verbatim>\<open>UNSPECIFIED\<close> and a server sleep of zero is answered
  with the output \<^verbatim>\<open>"echoed: "\<close> followed by the input, without an error, which is
  the wire status \<^verbatim>\<open>OK\<close>.
\<close>

theorem Echo_unspecified_echoes:
  "Action request = ServerAction_UNSPECIFIED \<and> AsDuration (ServerSleep request) = 0 \<longrightarrow>
     (\<exists>res. Echo sched s r request = Some res \<and>
        resp res = Some \<lparr>Output = ''echoed: '' @ Input request\<rparr> \<and>
        rerr res = None \<and> wireStatus (rerr res) = codes_OK)"
  by (simp add: Echo_def Let_def)

theorem Echo_unspecified_echoes_witness:
  "Action \<lparr>Input = ''abc'', ServerSleep = Some 0, Action = 0\<rparr> = ServerAction_UNSPECIFIED \<and>
   AsDuration (ServerSleep \<lparr>Input = ''abc'', ServerSleep = Some 0, Action = 0\<rparr>) = 0 \<and>
   (\<exists>res. Echo [] (newServer 5) None \<lparr>Input = ''abc'', ServerSleep = Some 0, Action = 0\<rparr> = Some res \<and>
      resp res = Some \<lparr>Output = ''echoed: abc''\<rparr> \<and> rerr res = None \<and>
      wireStatus (rerr res) = codes_OK)"
  using Echo_unspecified_echoes
    [of "\<lparr>Input = ''abc'', ServerSleep = Some 0, Action = 0\<rparr>" "[]" "newServer 5" None]
  by (simp add: ServerAction_UNSPECIFIED_def AsDuration_def)

text \<open>
  Claim C8. On the normal path the duration handed to \<^verbatim>\<open>time.Sleep\<close> is the maximum of
  the server's \<^verbatim>\<open>responseSleep\<close> and the request's \<^verbatim>\<open>server_sleep\<close>.
\<close>

theorem Echo_sleeps_maximum:
  "Action request = ServerAction_UNSPECIFIED \<longrightarrow>
     (\<exists>res. Echo sched s r request = Some res \<and>
        slept res = Some (max (responseSleep s) (AsDuration (ServerSleep request))))"
  by (simp add: Echo_def Let_def max_def)

theorem Echo_sleeps_maximum_witness:
  "Action \<lparr>Input = ''abc'', ServerSleep = Some 7, Action = 0\<rparr> = ServerAction_UNSPECIFIED \<and>
   (\<exists>res. Echo [] (newServer 5) None \<lparr>Input = ''abc'', ServerSleep = Some 7, Action = 0\<rparr> = Some res \<and>
      slept res = Some 7)"
  using Echo_sleeps_maximum
    [of "\<lparr>Input = ''abc'', ServerSleep = Some 7, Action = 0\<rparr>" "[]" "newServer 5" None]
  by (simp add: ServerAction_UNSPECIFIED_def AsDuration_def newServer_def)

text \<open>
  Claim C9. A request whose action is none of the three named values gets no response
  and the wire status \<^verbatim>\<open>INVALID_ARGUMENT\<close>.
\<close>

theorem Echo_unknown_action:
  "Action request \<noteq> ServerAction_UNSPECIFIED \<and>
   Action request \<noteq> ServerAction_RETURN_CONTEXT_DEADLINE_EXCEEDED \<and>
   Action request \<noteq> ServerAction_RETURN_CONTEXT_CANCELED \<longrightarrow>
     (\<exists>res. Echo sched s r request = Some res \<and> resp res = None \<and>
        wireStatus (rerr res) = codes_InvalidArgument)"
  by (simp add: Echo_def Let_def)

theorem Echo_unknown_action_witness:
  "Action \<lparr>Input = ''abc'', ServerSleep = None, Action = 3\<rparr> \<noteq> ServerAction_UNSPECIFIED \<and>
   Action \<lparr>Input = ''abc'', ServerSleep = None, Action = 3\<rparr> \<noteq> ServerAction_RETURN_CONTEXT_DEADLINE_EXCEEDED \<and>
   Action \<lparr>Input = ''abc'', ServerSleep = None, Action = 3\<rparr> \<noteq> ServerAction_RETURN_CONTEXT_CANCELED \<and>
   (\<exists>res. Echo [] (newServer 0) None \<lparr>Input = ''abc'', ServerSleep = None, Action = 3\<rparr> = Some res \<and>
      resp res = None \<and> wireStatus (rerr res) = codes_InvalidArgument)"
  using Echo_unknown_action
    [of "\<lparr>Input = ''abc'', ServerSleep = None, Action = 3\<rparr>" "[]" "newServer 0" None]
  by (simp add: ServerAction_UNSPECIFIED_def ServerAction_RETURN_CONTEXT_DEADLINE_EXCEEDED_def
      ServerAction_RETURN_CONTEXT_CANCELED_def)

section \<open>The reachable states of the two-task group\<close>

lemma orElse_simps [simp]: "orElse None e = Some e" "orElse (Some y) e = Some y" "orElse x e \<noteq> None"
  by (simp_all add: orElse_def split: option.splits)

lemma orElse_Some [simp]: "\<exists>y. orElse x e = Some y"
  by (cases x) simp_all

lemma orElse_same [simp]: "(x = orElse x e) = (x \<noteq> None)" "(orElse x e = x) = (x \<noteq> None)"
  by (cases x; simp)+

lemma orElse_eq: "orElse x e = Some c \<longleftrightarrow> x = Some c \<or> x = None \<and> e = c"
  by (cases x) auto

lemma shape2_inj [simp]: "shape2 r w = shape2 r' w' \<longleftrightarrow> r = r' \<and> w = w'"
  by (simp add: shape2_def)

lemma shape3_inj [simp]: "shape3 r w tm t = shape3 r' w' tm' t' \<longleftrightarrow> r = r' \<and> w = w' \<and> tm = tm' \<and> t = t'"
  by (simp add: shape3_def)

lemma shape23 [simp]: "shape2 r w \<noteq> shape3 r' w' tm t" "shape3 r' w' tm t \<noteq> shape2 r w"
  by (simp_all add: shape3_def shape2_def)

lemma length_shape [simp]: "length (shape2 r w) = 2" "length (shape3 r w tm t) = 3"
  by (simp_all add: shape2_def shape3_def)

lemma Err_shape2 [simp]: "Err (shape2 r w) 0 = r" "Err (shape2 r w) (Suc 0) = w"
  by (simp_all add: shape2_def Err_def)

lemma Err_shape3 [simp]:
  "Err (shape3 r w tm t) 0 = r" "Err (shape3 r w tm t) (Suc 0) = w" "Err (shape3 r w tm t) 2 = t"
  by (simp_all add: shape3_def shape2_def Err_def)

lemma timer_shape3 [simp]: "timer (shape3 r w tm t ! 2) = tm"
  by (simp add: shape3_def shape2_def)

lemma init_shape: "WithCancel 0 (requestScope r) = (1, shape2 r r)"
  by (simp add: WithCancel_def requestScope_def shape2_def Err_def)

lemma WithTimeout_shape2: "WithTimeout (Suc 0) 10 (shape2 r w) = (2, shape3 r w (w = None) w)"
  by (simp add: WithTimeout_def shape3_def)

lemma fire0_shape2: "fire 0 e (shape2 r w) = (if r = None then shape2 (Some e) (orElse w e) else shape2 r w)"
  by (cases w) (simp_all add: fire_def shape2_def)

lemma fire1_shape2: "fire (Suc 0) e (shape2 r w) = shape2 r (orElse w e)"
  by (cases w) (simp_all add: fire_def shape2_def)

lemma fire0_shape3:
  "fire 0 e (shape3 r w tm t) =
     (if r = None then shape3 (Some e) (orElse w e) tm (if w = None then orElse t e else t)
      else shape3 r w tm t)"
  by (cases w; cases t) (simp_all add: fire_def shape2_def shape3_def)

lemma fire1_shape3: "fire (Suc 0) e (shape3 r w tm t) = (if w = None then shape3 r (Some e) tm (orElse t e) else shape3 r w tm t)"
  by (cases w; cases t) (simp_all add: fire_def shape2_def shape3_def)

lemma fire2_shape3: "fire 2 e (shape3 r w tm t) = shape3 r w tm (orElse t e)"
  by (cases t) (simp_all add: fire_def shape2_def shape3_def)

lemma shaped_init: "shaped (simTwoTasks_init r)"
  by (simp add: shaped_def simTwoTasks_init_def requestCtx_def init_shape isDone_def)

lemma shapedE2:
  assumes "shaped s" "pcOne s = One_WithTimeout"
  obtains r w where "scopes s = shape2 r w" "ctxWithCancel s = 1" "ctxOne s = None" "r \<noteq> None \<longrightarrow> w \<noteq> None"
proof -
  from assms have "scopes s = shape2 (Err (scopes s) 0) (Err (scopes s) 1)"
    and "ctxWithCancel s = 1" "ctxOne s = None" "Err (scopes s) 0 \<noteq> None \<longrightarrow> Err (scopes s) 1 \<noteq> None"
    by (simp_all add: shaped_def isDone_def)
  then show ?thesis by (rule that)
qed

lemma shapedE3:
  assumes "shaped s" "pcOne s \<noteq> One_WithTimeout"
  obtains r w tm t where "scopes s = shape3 r w tm t" "ctxWithCancel s = 1" "ctxOne s = Some 2"
    "r \<noteq> None \<longrightarrow> w \<noteq> None" "w \<noteq> None \<longrightarrow> t \<noteq> None" "tm \<or> t \<noteq> None"
proof -
  from assms have "scopes s = shape3 (Err (scopes s) 0) (Err (scopes s) 1) (timer (scopes s ! 2)) (Err (scopes s) 2)"
    and "ctxWithCancel s = 1" "ctxOne s = Some 2" "Err (scopes s) 0 \<noteq> None \<longrightarrow> Err (scopes s) 1 \<noteq> None"
     "Err (scopes s) 1 \<noteq> None \<longrightarrow> Err (scopes s) 2 \<noteq> None" "timer (scopes s ! 2) \<or> Err (scopes s) 2 \<noteq> None"
    by (simp_all add: shaped_def isDone_def)
  then show ?thesis by (rule that)
qed

lemma step_cases [consumes 2, case_names create wait1 cancel1 err1 send1 wait2 err2 send2 check return timer request]:
  assumes sh: "shaped s" and st: "step a s = Some s'"
  obtains
    (create) "a = TaskOne" "pcOne s = One_WithTimeout"
      "s' = s\<lparr>scopes := snd (WithTimeout 1 10 (scopes s)), ctxOne := Some 2, pcOne := One_Done\<rparr>"
      "Err (scopes s') 0 = Err (scopes s) 0" "Err (scopes s') (Suc 0) = Err (scopes s) (Suc 0)"
      "Err (scopes s') 2 = Err (scopes s) (Suc 0)" "Err (scopes s) 2 = None"
  | (wait1) "a = TaskOne" "pcOne s = One_Done" "Err (scopes s) 2 \<noteq> None" "s' = s\<lparr>pcOne := One_cancel\<rparr>"
  | (cancel1) "a = TaskOne" "pcOne s = One_cancel"
      "s' = s\<lparr>scopes := cancelFn 2 (scopes s), pcOne := One_Err\<rparr>"
      "Err (scopes s') 0 = Err (scopes s) 0" "Err (scopes s') (Suc 0) = Err (scopes s) (Suc 0)"
      "Err (scopes s') 2 = orElse (Err (scopes s) 2) Canceled"
  | (err1) "a = TaskOne" "pcOne s = One_Err" "s' = s\<lparr>errOne := Err (scopes s) 2, pcOne := One_send\<rparr>"
  | (send1) "a = TaskOne" "pcOne s = One_send" "pcParent s = P_recv"
      "s' = s\<lparr>lastErr := errOne s, collected := collected s @ [errOne s],
               pcParent := P_check, pcOne := One_exit\<rparr>"
  | (wait2) "a = TaskTwo" "pcTwo s = Two_Done" "Err (scopes s) (Suc 0) \<noteq> None" "s' = s\<lparr>pcTwo := Two_Err\<rparr>"
  | (err2) "a = TaskTwo" "pcTwo s = Two_Err" "s' = s\<lparr>errTwo := Err (scopes s) (Suc 0), pcTwo := Two_send\<rparr>"
  | (send2) "a = TaskTwo" "pcTwo s = Two_send" "pcParent s = P_recv"
      "s' = s\<lparr>lastErr := errTwo s, collected := collected s @ [errTwo s],
               pcParent := P_check, pcTwo := Two_exit\<rparr>"
  | (check) st' where "a = Handler" "pcParent s = P_check"
      "s' = s\<lparr>scopes := st', idx := idx s + 1,
               pcParent := (if idx s + 1 < numTasks then P_recv else P_return)\<rparr>"
      "Err st' 0 = Err (scopes s) 0"
      "Err st' (Suc 0) = (if lastErr s \<noteq> None then orElse (Err (scopes s) (Suc 0)) Canceled else Err (scopes s) (Suc 0))"
      "Err st' 2 = (if lastErr s \<noteq> None \<and> pcOne s \<noteq> One_WithTimeout
                    then orElse (Err (scopes s) 2) Canceled else Err (scopes s) 2)"
  | (return) st' where "a = Handler" "pcParent s = P_return"
      "s' = s\<lparr>scopes := st', pcParent := P_exit\<rparr>"
      "Err st' 0 = Err (scopes s) 0"
      "Err st' (Suc 0) = orElse (Err (scopes s) (Suc 0)) Canceled"
      "Err st' 2 = (if pcOne s \<noteq> One_WithTimeout
                    then orElse (Err (scopes s) 2) Canceled else Err (scopes s) 2)"
  | (timer) st' where "a = Timer" "pcOne s \<noteq> One_WithTimeout" "Err (scopes s) 2 = None"
      "s' = s\<lparr>scopes := st'\<rparr>"
      "Err st' 0 = Err (scopes s) 0" "Err st' (Suc 0) = Err (scopes s) (Suc 0)"
      "Err st' 2 = Some DeadlineExceeded"
  | (request) e st' where "a = CallerCancels \<and> e = Canceled \<or> a = RequestDeadline \<and> e = DeadlineExceeded"
      "Err (scopes s) 0 = None"
      "s' = s\<lparr>scopes := st'\<rparr>"
      "Err st' 0 = Some e" "Err st' (Suc 0) = orElse (Err (scopes s) (Suc 0)) e"
      "Err st' 2 = (if pcOne s \<noteq> One_WithTimeout
                    then orElse (Err (scopes s) 2) e else Err (scopes s) 2)"
proof (cases "pcOne s = One_WithTimeout")
  case True
  with sh obtain r w where sc: "scopes s = shape2 r w" "ctxWithCancel s = 1" "ctxOne s = None"
    "r \<noteq> None \<longrightarrow> w \<noteq> None"
    by (rule shapedE2)
  have e2: "Err (shape2 r w) 2 = None" by (simp add: Err_def)
  show thesis
  proof (cases a)
    case TaskOne
    with st True sc e2 show thesis
      by (intro create) (auto simp: stepOne_def WithTimeout_shape2)
  next
    case TaskTwo
    show thesis
    proof (cases "pcTwo s")
      case Two_Done
      with st TaskTwo sc show thesis
        by (intro wait2) (simp_all add: stepTwo_def isDone_def split: if_splits)
    next
      case Two_Err
      with st TaskTwo sc show thesis
        by (intro err2) (simp_all add: stepTwo_def)
    next
      case Two_send
      with st TaskTwo sc show thesis
        by (intro send2) (simp_all add: stepTwo_def split: if_splits)
    next
      case Two_exit
      with st TaskTwo show thesis by (simp add: stepTwo_def)
    qed
  next
    case Handler
    show thesis
    proof (cases "pcParent s")
      case P_recv
      with st Handler show thesis by (simp add: stepParent_def)
    next
      case P_check
      with st Handler sc True e2 show thesis
        by (intro check [of "if lastErr s \<noteq> None then cancelFn 1 (scopes s) else scopes s"])
           (auto simp: stepParent_def cancelFn_def fire1_shape2 Err_def [of _ 2])
    next
      case P_return
      with st Handler sc True e2 show thesis
        by (intro return [of "cancelFn 1 (scopes s)"])
           (auto simp: stepParent_def cancelFn_def fire1_shape2 Err_def [of _ 2])
    next
      case P_exit
      with st Handler show thesis by (simp add: stepParent_def)
    qed
  next
    case Timer
    with st sc show thesis by (simp add: stepTimer_def)
  next
    case CallerCancels
    with st sc True e2 show thesis
      by (intro request [of Canceled "fire 0 Canceled (scopes s)"])
         (auto simp: stepRequest_def requestCtx_def isDone_def fire0_shape2 Err_def [of _ 2] split: if_splits)
  next
    case RequestDeadline
    with st sc True e2 show thesis
      by (intro request [of DeadlineExceeded "fire 0 DeadlineExceeded (scopes s)"])
         (auto simp: stepRequest_def requestCtx_def isDone_def fire0_shape2 Err_def [of _ 2] split: if_splits)
  qed
next
  case False
  with sh obtain r w tm t where sc: "scopes s = shape3 r w tm t" "ctxWithCancel s = 1" "ctxOne s = Some 2"
    "r \<noteq> None \<longrightarrow> w \<noteq> None" "w \<noteq> None \<longrightarrow> t \<noteq> None" "tm \<or> t \<noteq> None"
    by (rule shapedE3)
  show thesis
  proof (cases a)
    case TaskOne
    show thesis
    proof (cases "pcOne s")
      case One_WithTimeout
      with False show thesis by simp
    next
      case One_Done
      with st TaskOne sc show thesis
        by (intro wait1) (simp_all add: stepOne_def isDone_def split: if_splits)
    next
      case One_cancel
      with st TaskOne sc show thesis
        by (intro cancel1) (auto simp: stepOne_def cancelFn_def fire2_shape3)
    next
      case One_Err
      with st TaskOne sc show thesis
        by (intro err1) (simp_all add: stepOne_def)
    next
      case One_send
      with st TaskOne sc show thesis
        by (intro send1) (simp_all add: stepOne_def split: if_splits)
    next
      case One_exit
      with st TaskOne show thesis by (simp add: stepOne_def)
    qed
  next
    case TaskTwo
    show thesis
    proof (cases "pcTwo s")
      case Two_Done
      with st TaskTwo sc show thesis
        by (intro wait2) (simp_all add: stepTwo_def isDone_def split: if_splits)
    next
      case Two_Err
      with st TaskTwo sc show thesis
        by (intro err2) (simp_all add: stepTwo_def)
    next
      case Two_send
      with st TaskTwo sc show thesis
        by (intro send2) (simp_all add: stepTwo_def split: if_splits)
    next
      case Two_exit
      with st TaskTwo show thesis by (simp add: stepTwo_def)
    qed
  next
    case Handler
    show thesis
    proof (cases "pcParent s")
      case P_recv
      with st Handler show thesis by (simp add: stepParent_def)
    next
      case P_check
      with st Handler sc False show thesis
        by (intro check [of "if lastErr s \<noteq> None then cancelFn 1 (scopes s) else scopes s"])
           (auto simp: stepParent_def cancelFn_def fire1_shape3)
    next
      case P_return
      with st Handler sc False show thesis
        by (intro return [of "cancelFn 1 (scopes s)"])
           (auto simp: stepParent_def cancelFn_def fire1_shape3)
    next
      case P_exit
      with st Handler show thesis by (simp add: stepParent_def)
    qed
  next
    case Timer
    with st sc False show thesis
      by (intro timer [of "deadlineElapses 2 (scopes s)"])
         (auto simp: stepTimer_def deadlineElapses_def isDone_def fire2_shape3 split: if_splits)
  next
    case CallerCancels
    with st sc False show thesis
      by (intro request [of Canceled "fire 0 Canceled (scopes s)"])
         (auto simp: stepRequest_def requestCtx_def isDone_def fire0_shape3 split: if_splits)
  next
    case RequestDeadline
    with st sc False show thesis
      by (intro request [of DeadlineExceeded "fire 0 DeadlineExceeded (scopes s)"])
         (auto simp: stepRequest_def requestCtx_def isDone_def fire0_shape3 split: if_splits)
  qed
qed

lemma shaped_step:
  assumes sh: "shaped s" and st: "step a s = Some s'"
  shows "shaped s'"
proof (cases "pcOne s = One_WithTimeout")
  case True
  with sh obtain r w where sc: "scopes s = shape2 r w" "ctxWithCancel s = 1" "ctxOne s = None"
    "r \<noteq> None \<longrightarrow> w \<noteq> None"
    by (rule shapedE2)
  show ?thesis
  proof (cases a)
    case TaskOne
    with st True sc show ?thesis
      by (auto simp: shaped_def stepOne_def WithTimeout_shape2 isDone_def)
  next
    case TaskTwo
    with st True sc show ?thesis
      by (auto simp: shaped_def stepTwo_def isDone_def split: taskTwoPc.splits if_splits)
  next
    case Handler
    with st True sc show ?thesis
      by (auto simp: shaped_def stepParent_def cancelFn_def fire1_shape2 isDone_def
          split: parentPc.splits if_splits)
  next
    case Timer
    with st sc show ?thesis by (simp add: stepTimer_def)
  next
    case CallerCancels
    with st True sc show ?thesis
      by (auto simp: shaped_def stepRequest_def requestCtx_def fire0_shape2 isDone_def split: if_splits)
  next
    case RequestDeadline
    with st True sc show ?thesis
      by (auto simp: shaped_def stepRequest_def requestCtx_def fire0_shape2 isDone_def split: if_splits)
  qed
next
  case False
  with sh obtain r w tm t where sc: "scopes s = shape3 r w tm t" "ctxWithCancel s = 1" "ctxOne s = Some 2"
    "r \<noteq> None \<longrightarrow> w \<noteq> None" "w \<noteq> None \<longrightarrow> t \<noteq> None" "tm \<or> t \<noteq> None"
    by (rule shapedE3)
  show ?thesis
  proof (cases a)
    case TaskOne
    with st False sc show ?thesis
      by (cases "pcOne s")
         (auto simp: shaped_def stepOne_def cancelFn_def fire2_shape3 isDone_def split: if_splits)
  next
    case TaskTwo
    with st False sc show ?thesis
      by (auto simp: shaped_def stepTwo_def isDone_def split: taskTwoPc.splits if_splits)
  next
    case Handler
    with st False sc show ?thesis
      by (auto simp: shaped_def stepParent_def cancelFn_def fire1_shape3 isDone_def
          split: parentPc.splits if_splits)
  next
    case Timer
    with st False sc show ?thesis
      by (auto simp: shaped_def stepTimer_def deadlineElapses_def fire2_shape3 isDone_def split: if_splits)
  next
    case CallerCancels
    with st False sc show ?thesis
      by (auto simp: shaped_def stepRequest_def requestCtx_def fire0_shape3 isDone_def split: if_splits)
  next
    case RequestDeadline
    with st False sc show ?thesis
      by (auto simp: shaped_def stepRequest_def requestCtx_def fire0_shape3 isDone_def split: if_splits)
  qed
qed

lemma sound_init: "sound (simTwoTasks_init r)"
  by (simp add: sound_def simTwoTasks_init_def requestCtx_def init_shape numTasks_def)

lemma calm_init: "calm (simTwoTasks_init r)"
  by (simp add: calm_def simTwoTasks_init_def requestCtx_def init_shape)

lemma sound_step:
  assumes "shaped s" and "step a s = Some s'" and "sound s"
  shows "sound s'"
  using assms(1,2)
proof (cases rule: step_cases)
  case create
  with assms(3) show ?thesis by (simp add: sound_def)
next
  case wait1
  with assms(3) show ?thesis by (simp add: sound_def)
next
  case cancel1
  with assms(3) show ?thesis by (simp add: sound_def)
next
  case err1
  with assms(3) show ?thesis by (simp add: sound_def)
next
  case send1
  with assms(3) show ?thesis by (simp add: sound_def)
next
  case wait2
  with assms(3) show ?thesis by (simp add: sound_def)
next
  case err2
  with assms(3) show ?thesis by (simp add: sound_def)
next
  case send2
  with assms(3) show ?thesis by (simp add: sound_def)
next
  case (check st')
  with assms(3) show ?thesis by (simp add: sound_def numTasks_def)
next
  case (return st')
  with assms(3) show ?thesis by (simp add: sound_def)
next
  case (timer st')
  with assms(3) show ?thesis by (simp add: sound_def)
next
  case (request e st')
  with assms(3) show ?thesis by (simp add: sound_def)
qed

lemma sound_check_ne: "sound s \<Longrightarrow> pcParent s = P_check \<Longrightarrow> collected s \<noteq> []"
proof -
  assume "sound s" and "pcParent s = P_check"
  then have "idx s + 1 = length (collected s)" by (simp add: sound_def)
  then show ?thesis by auto
qed

lemma sound_return_all:
  assumes "sound s" and "pcParent s = P_return \<or> pcParent s = P_exit"
  shows "pcOne s = One_exit \<and> pcTwo s = Two_exit \<and> length (collected s) = 2"
proof -
  from assms(1) have "pcParent s = P_return \<or> pcParent s = P_exit \<longrightarrow> idx s = numTasks"
    by (simp add: sound_def)
  with assms(2) have i: "idx s = 2" by (simp add: numTasks_def)
  from assms(2) have p: "pcParent s \<noteq> P_check" by auto
  from assms(1) have "idx s + (if pcParent s = P_check then 1 else 0) = length (collected s)"
    by (simp add: sound_def)
  with i p have l: "length (collected s) = 2" by simp
  from assms(1) have "length (collected s) =
        (if pcOne s = One_exit then 1 else 0) + (if pcTwo s = Two_exit then 1 else 0)"
    by (simp add: sound_def)
  with l show ?thesis by (simp split: if_splits)
qed

lemma sound_first_is_one:
  assumes "sound s" and "collected s \<noteq> []" and "pcTwo s \<noteq> Two_exit"
  shows "pcOne s = One_exit"
proof -
  from assms(1) have "length (collected s) =
        (if pcOne s = One_exit then 1 else 0) + (if pcTwo s = Two_exit then 1 else 0)"
    by (simp add: sound_def)
  with assms(2,3) show ?thesis by (simp split: if_splits)
qed

lemma calm_step:
  assumes "shaped s" and "step a s = Some s'" and "sound s" and "calm s"
  shows "calm s'"
  using assms(1,2)
proof (cases rule: step_cases)
  case create
  with assms(4) show ?thesis by (simp add: calm_def)
next
  case wait1
  with assms(4) show ?thesis by (simp add: calm_def)
next
  case cancel1
  with assms(4) show ?thesis by (simp add: calm_def)
next
  case err1
  with assms(4) show ?thesis by (simp add: calm_def)
next
  case send1
  with assms(4) show ?thesis by (simp add: calm_def)
next
  case wait2
  with assms(4) show ?thesis by (simp add: calm_def)
next
  case err2
  with assms(4) show ?thesis by (simp add: calm_def)
next
  case send2
  show ?thesis
  proof (cases "Err (scopes s) 0")
    case (Some y)
    with send2 show ?thesis by (simp add: calm_def)
  next
    case None
    from assms(3) send2 have w: "Err (scopes s) (Suc 0) \<noteq> None" and e: "errTwo s = Err (scopes s) (Suc 0)"
      by (simp_all add: sound_def)
    with assms(4) None have c: "Err (scopes s) (Suc 0) = Some Canceled" and ne: "collected s \<noteq> []"
      by (simp_all add: calm_def)
    from sound_first_is_one [OF assms(3) ne] send2 have "pcOne s = One_exit" by simp
    with send2 c e ne show ?thesis by (simp add: calm_def)
  qed
next
  case (check st')
  from sound_check_ne [OF assms(3) check(2)] have ne: "collected s \<noteq> []" .
  with assms(4) check show ?thesis
    by (cases "Err (scopes s) (Suc 0)"; cases "lastErr s") (simp_all add: calm_def)
next
  case (return st')
  from sound_return_all [OF assms(3)] return(2) have "length (collected s) = 2" by simp
  then have ne: "collected s \<noteq> []" by auto
  with assms(4) return(3,4,5) show ?thesis
    by (cases "Err (scopes s) (Suc 0)") (simp_all add: calm_def)
next
  case (timer st')
  with assms(4) show ?thesis by (simp add: calm_def)
next
  case (request e st')
  then show ?thesis by (simp add: calm_def)
qed

lemma inv_init: "inv (simTwoTasks_init r)"
  by (simp add: inv_def shaped_init sound_init calm_init)

lemma inv_step: "inv s \<Longrightarrow> step a s = Some s' \<Longrightarrow> inv s'"
  unfolding inv_def by (blast intro: shaped_step sound_step calm_step)

lemma inv_run: "inv s \<Longrightarrow> run sched s = Some s' \<Longrightarrow> inv s'"
proof (induction sched arbitrary: s)
  case Nil
  then show ?case by simp
next
  case (Cons a sched)
  then show ?case by (auto split: option.splits dest: inv_step)
qed

lemma run_append:
  "run (xs @ ys) s = (case run xs s of None \<Rightarrow> None | Some s' \<Rightarrow> run ys s')"
  by (induction xs arbitrary: s) (auto split: option.splits)

lemma request_unchanged:
  assumes "shaped s" and "step a s = Some s'" and "a \<noteq> CallerCancels" and "a \<noteq> RequestDeadline"
  shows "Err (scopes s') 0 = Err (scopes s) 0"
  using assms(1,2)
proof (cases rule: step_cases)
  case (request e st')
  with assms(3,4) show ?thesis by simp
qed simp_all

lemma quiet_run:
  "inv s \<Longrightarrow> quiet sched \<Longrightarrow> run sched s = Some s' \<Longrightarrow> Err (scopes s') 0 = Err (scopes s) 0"
proof (induction sched arbitrary: s)
  case Nil
  then show ?case by simp
next
  case (Cons a sched)
  from Cons.prems(3) obtain s1 where s1: "step a s = Some s1" and r: "run sched s1 = Some s'"
    by (auto split: option.splits)
  from Cons.prems(2) have q: "a \<noteq> CallerCancels" "a \<noteq> RequestDeadline" "quiet sched"
    by (auto simp: quiet_def)
  from Cons.prems(1) have "shaped s" by (simp add: inv_def)
  from request_unchanged [OF this s1 q(1,2)] have "Err (scopes s1) 0 = Err (scopes s) 0" .
  moreover from Cons.IH [OF inv_step [OF Cons.prems(1) s1] q(3) r]
  have "Err (scopes s') 0 = Err (scopes s1) 0" .
  ultimately show ?case by simp
qed

lemma exit_collected:
  assumes "inv s" and "pcParent s = P_exit"
  shows "length (collected s) = numTasks \<and> lastErr s = last (collected s) \<and> lastErr s \<noteq> None"
proof -
  from assms have so: "sound s" by (simp add: inv_def)
  from sound_return_all [OF so] assms(2) have l: "length (collected s) = 2" by simp
  then have ne: "collected s \<noteq> []" by auto
  from so ne have la: "lastErr s = last (collected s)" by (simp add: sound_def)
  from so have "\<forall>e \<in> set (collected s). e \<noteq> None" by (simp add: sound_def)
  with ne have "last (collected s) \<noteq> None" using last_in_set by blast
  with l la show ?thesis by (simp add: numTasks_def)
qed

lemma exit_quiet:
  assumes "inv s" and "pcParent s = P_exit" and "Err (scopes s) 0 = None"
  shows "lastErr s = Some Canceled"
proof -
  from assms have so: "sound s" and ca: "calm s" by (simp_all add: inv_def)
  from sound_return_all [OF so] assms(2) have "pcTwo s = Two_exit" by simp
  with ca assms(3) show ?thesis by (simp add: calm_def)
qed

lemma live_simps [simp]: "live None = 1" "live (Some e) = 0" "live (orElse x e) = 0"
  by (simp_all add: live_def orElse_def split: option.splits)

lemma live_le: "live (orElse x e) \<le> live x" "live x \<le> 1" "live x \<le> Suc 0"
  by (simp_all add: live_def split: option.splits)

lemma sound_check_idx: 
  assumes "sound s" and "pcParent s = P_check"
  shows "idx s < numTasks"
proof -
  from assms have a: "idx s + 1 = length (collected s)" by (simp add: sound_def)
  from assms(1) have "length (collected s) =
        (if pcOne s = One_exit then 1 else 0) + (if pcTwo s = Two_exit then 1 else 0)"
    by (simp add: sound_def)
  then have "length (collected s) \<le> 2" by (simp split: if_splits)
  with a show ?thesis by (simp add: numTasks_def)
qed

lemma step_decreases:
  assumes "shaped s" and "step a s = Some s'" and "sound s"
  shows "todo s' < todo s"
  using assms(1,2)
proof (cases rule: step_cases)
  case create
  have "live (Err (scopes s) (Suc 0)) \<le> 1" by (rule live_le)
  with create show ?thesis by (simp add: todo_def)
next
  case wait1
  then show ?thesis by (simp add: todo_def)
next
  case cancel1
  have "live (orElse (Err (scopes s) 2) Canceled) \<le> live (Err (scopes s) 2)" by (rule live_le)
  with cancel1 show ?thesis by (simp add: todo_def)
next
  case err1
  then show ?thesis by (simp add: todo_def)
next
  case send1
  then show ?thesis by (simp add: todo_def)
next
  case wait2
  then show ?thesis by (simp add: todo_def)
next
  case err2
  then show ?thesis by (simp add: todo_def)
next
  case send2
  then show ?thesis by (simp add: todo_def)
next
  case (check st')
  from sound_check_idx [OF assms(3) check(2)] have i: "idx s < numTasks" .
  have l: "live (Err st' 2) \<le> live (Err (scopes s) 2)"
    using check(6) by (simp add: live_le)
  from i have p: "rankParent (if idx s + 1 < numTasks then P_recv else P_return) (idx s + 1)
           < rankParent P_check (idx s)"
    by (cases "idx s + 1 < numTasks") (auto simp: numTasks_def)
  from check(2,3,4) l p show ?thesis by (simp add: todo_def)
next
  case (return st')
  have l: "live (Err st' 2) \<le> live (Err (scopes s) 2)"
    using return(6) by (simp add: live_le)
  from return(2,3,4) l show ?thesis by (simp add: todo_def)
next
  case (timer st')
  then show ?thesis by (simp add: todo_def)
next
  case (request e st')
  have l: "live (Err st' 2) \<le> live (Err (scopes s) 2)"
    using request(6) by (simp add: live_le)
  from request(2,3,4) l show ?thesis by (simp add: todo_def)
qed

lemma run_bounded: "inv s \<Longrightarrow> run sched s = Some s' \<Longrightarrow> length sched + todo s' \<le> todo s"
proof (induction sched arbitrary: s)
  case Nil
  then show ?case by simp
next
  case (Cons a sched)
  from Cons.prems(2) obtain s1 where s1: "step a s = Some s1" and r: "run sched s1 = Some s'"
    by (auto split: option.splits)
  from Cons.prems(1) have "shaped s" "sound s" by (simp_all add: inv_def)
  from step_decreases [OF this(1) s1 this(2)] have "todo s1 < todo s" .
  moreover from Cons.IH [OF inv_step [OF Cons.prems(1) s1] r]
  have "length sched + todo s' \<le> todo s1" .
  ultimately show ?case by simp
qed

lemma todo_init: "todo (simTwoTasks_init r) \<le> 15"
  by (simp add: todo_def simTwoTasks_init_def requestCtx_def init_shape numTasks_def live_le Err_def [of _ 2])

lemma progress:
  assumes "shaped s" and "sound s" and "pcParent s \<noteq> P_exit"
  shows "\<exists>a s'. a \<noteq> CallerCancels \<and> a \<noteq> RequestDeadline \<and> step a s = Some s'"
proof (cases "pcParent s")
  case P_recv
  show ?thesis
  proof (cases "pcOne s")
    case One_WithTimeout
    then have "\<exists>s'. step TaskOne s = Some s'"
      by (simp add: stepOne_def split: prod.splits)
    then show ?thesis by blast
  next
    case One_Done
    then have "pcOne s \<noteq> One_WithTimeout" by simp
    with assms(1) obtain r w tm t where sc: "scopes s = shape3 r w tm t" "ctxWithCancel s = 1"
      "ctxOne s = Some 2" "r \<noteq> None \<longrightarrow> w \<noteq> None" "w \<noteq> None \<longrightarrow> t \<noteq> None" "tm \<or> t \<noteq> None"
      by (rule shapedE3)
    show ?thesis
    proof (cases t)
      case None
      with sc One_Done have "\<exists>s'. step Timer s = Some s'"
        by (simp add: stepTimer_def isDone_def)
      then show ?thesis by blast
    next
      case (Some e)
      with sc One_Done have "\<exists>s'. step TaskOne s = Some s'"
        by (simp add: stepOne_def isDone_def)
      then show ?thesis by blast
    qed
  next
    case One_cancel
    with assms(1) have "ctxOne s = Some 2" by (simp add: shaped_def)
    with One_cancel have "\<exists>s'. step TaskOne s = Some s'" by (simp add: stepOne_def)
    then show ?thesis by blast
  next
    case One_Err
    with assms(1) have "ctxOne s = Some 2" by (simp add: shaped_def)
    with One_Err have "\<exists>s'. step TaskOne s = Some s'" by (simp add: stepOne_def)
    then show ?thesis by blast
  next
    case One_send
    with assms(1) have "ctxOne s = Some 2" by (simp add: shaped_def)
    with One_send P_recv have "\<exists>s'. step TaskOne s = Some s'" by (simp add: stepOne_def)
    then show ?thesis by blast
  next
    case One_exit
    from assms(2) have len: "length (collected s) =
        (if pcOne s = One_exit then 1 else 0) + (if pcTwo s = Two_exit then 1 else 0)"
      by (simp add: sound_def)
    with One_exit have ne: "collected s \<noteq> []" by auto
    show ?thesis
    proof (cases "pcTwo s")
      case Two_Done
      from assms(2) have "pcParent s \<noteq> P_check \<and> collected s \<noteq> [] \<longrightarrow> Err (scopes s) (Suc 0) \<noteq> None"
        by (simp add: sound_def)
      with ne P_recv have "Err (scopes s) (Suc 0) \<noteq> None" by simp
      moreover from assms(1) have "ctxWithCancel s = 1" by (simp add: shaped_def)
      ultimately have "\<exists>s'. step TaskTwo s = Some s'"
        using Two_Done by (simp add: stepTwo_def isDone_def)
      then show ?thesis by blast
    next
      case Two_Err
      then have "\<exists>s'. step TaskTwo s = Some s'" by (simp add: stepTwo_def)
      then show ?thesis by blast
    next
      case Two_send
      with P_recv have "\<exists>s'. step TaskTwo s = Some s'" by (simp add: stepTwo_def)
      then show ?thesis by blast
    next
      case Two_exit
      with len One_exit have l: "length (collected s) = 2" by simp
      from assms(2) P_recv have "idx s = length (collected s)" "idx s < numTasks"
        by (simp_all add: sound_def)
      with l show ?thesis by (simp add: numTasks_def)
    qed
  qed
next
  case P_check
  then have "\<exists>s'. step Handler s = Some s'" by (simp add: stepParent_def Let_def)
  then show ?thesis by blast
next
  case P_return
  then have "\<exists>s'. step Handler s = Some s'" by (simp add: stepParent_def)
  then show ?thesis by blast
next
  case P_exit
  with assms(3) show ?thesis by simp
qed

lemma completes:
  "inv s \<Longrightarrow> \<exists>sched s'. quiet sched \<and> run sched s = Some s' \<and> pcParent s' = P_exit"
proof (induction "todo s" arbitrary: s rule: less_induct)
  case less
  show ?case
  proof (cases "pcParent s = P_exit")
    case True
    then have "quiet [] \<and> run [] s = Some s \<and> pcParent s = P_exit" by (simp add: quiet_def)
    then show ?thesis by blast
  next
    case False
    from less.prems have sh: "shaped s" and so: "sound s" by (simp_all add: inv_def)
    from progress [OF sh so False] obtain a s1 where
      a: "a \<noteq> CallerCancels" "a \<noteq> RequestDeadline" and s1: "step a s = Some s1"
      by blast
    from step_decreases [OF sh s1 so] have "todo s1 < todo s" .
    from less.hyps [OF this inv_step [OF less.prems s1]] obtain sched s' where
      "quiet sched" "run sched s1 = Some s'" "pcParent s' = P_exit"
      by blast
    with a s1 have "quiet (a # sched) \<and> run (a # sched) s = Some s' \<and> pcParent s' = P_exit"
      by (simp add: quiet_def)
    then show ?thesis by blast
  qed
qed

lemma simTwoTasks_Some:
  "simTwoTasks sched r = Some e \<longleftrightarrow>
     (\<exists>s. run sched (simTwoTasks_init r) = Some s \<and> pcParent s = P_exit \<and> lastErr s = e)"
  by (auto simp: simTwoTasks_def split: option.splits)

lemma reachable_inv: "run sched (simTwoTasks_init r) = Some s \<Longrightarrow> inv s"
  using inv_run [OF inv_init] by blast

section \<open>Claims about the two-task group\<close>

text \<open>
  Claim C1. Last reporter wins: whenever \<^verbatim>\<open>simTwoTasks\<close> returns, both tasks have reported
  and the returned error is the one collected last. The run displayed after the theorem
  collects \<^verbatim>\<open>DeadlineExceeded\<close> first and returns \<^verbatim>\<open>Canceled\<close>.
\<close>

theorem simTwoTasks_last_reporter_wins:
  "simTwoTasks sched r = Some e \<longrightarrow>
     (\<exists>s. run sched (simTwoTasks_init r) = Some s \<and>
          length (collected s) = numTasks \<and> e = last (collected s))"
proof
  assume "simTwoTasks sched r = Some e"
  then obtain s where s: "run sched (simTwoTasks_init r) = Some s" "pcParent s = P_exit" "lastErr s = e"
    by (auto simp: simTwoTasks_Some)
  from exit_collected [OF reachable_inv [OF s(1)] s(2)] s
  show "\<exists>s. run sched (simTwoTasks_init r) = Some s \<and>
          length (collected s) = numTasks \<and> e = last (collected s)"
    by auto
qed

theorem simTwoTasks_last_reporter_wins_witness:
  "simTwoTasks [TaskOne, Timer, TaskOne, TaskOne, TaskOne, TaskOne, Handler,
                TaskTwo, TaskTwo, TaskTwo, Handler, Handler] None = Some (Some Canceled) \<and>
   (\<exists>s. run [TaskOne, Timer, TaskOne, TaskOne, TaskOne, TaskOne, Handler,
              TaskTwo, TaskTwo, TaskTwo, Handler, Handler] (simTwoTasks_init None) = Some s \<and>
        length (collected s) = numTasks \<and> Some Canceled = last (collected s)) \<and>
   map_option collected
     (run [TaskOne, Timer, TaskOne, TaskOne, TaskOne, TaskOne, Handler,
           TaskTwo, TaskTwo, TaskTwo, Handler, Handler] (simTwoTasks_init None))
     = Some [Some DeadlineExceeded, Some Canceled]"
proof -
  have h: "simTwoTasks [TaskOne, Timer, TaskOne, TaskOne, TaskOne, TaskOne, Handler,
                TaskTwo, TaskTwo, TaskTwo, Handler, Handler] None = Some (Some Canceled)"
    by code_simp
  have c: "map_option collected
     (run [TaskOne, Timer, TaskOne, TaskOne, TaskOne, TaskOne, Handler,
           TaskTwo, TaskTwo, TaskTwo, Handler, Handler] (simTwoTasks_init None))
     = Some [Some DeadlineExceeded, Some Canceled]"
    by code_simp
  from h c simTwoTasks_last_reporter_wins
    [of "[TaskOne, Timer, TaskOne, TaskOne, TaskOne, TaskOne, Handler,
          TaskTwo, TaskTwo, TaskTwo, Handler, Handler]" None "Some Canceled"]
  show ?thesis by simp
qed

text \<open>
  Claim C3. When the collector has received an error that is not nil, its next step cancels
  the shared scope, before it waits for another result; so whenever the collector waits
  at its receive after an error was collected, the shared scope is done and task two, if
  it still waits for the scope, can move.
\<close>

theorem collector_cancels_shared_scope:
  "(run sched (simTwoTasks_init r) = Some s \<and> pcParent s = P_check \<and> lastErr s \<noteq> None \<longrightarrow>
      (\<exists>s'. step Handler s = Some s' \<and> isDone (scopes s') (ctxWithCancel s'))) \<and>
   (run sched' (simTwoTasks_init r') = Some t \<and> pcParent t = P_recv \<and>
      (\<exists>e \<in> set (collected t). e \<noteq> None) \<longrightarrow>
      isDone (scopes t) (ctxWithCancel t) \<and>
      (pcTwo t = Two_Done \<longrightarrow> (\<exists>t'. step TaskTwo t = Some t')))"
proof -
  have first: "\<exists>s'. step Handler s = Some s' \<and> isDone (scopes s') (ctxWithCancel s')"
    if a: "run sched (simTwoTasks_init r) = Some s" "pcParent s = P_check" "lastErr s \<noteq> None"
  proof -
    from a(1) have "inv s" by (rule reachable_inv)
    then have sh: "shaped s" by (simp add: inv_def)
    from a(2) obtain s' where s': "step Handler s = Some s'"
      by (auto simp: stepParent_def Let_def)
    from sh s' have sh': "shaped s'" by (rule shaped_step)
    from sh s' have "Err (scopes s') (Suc 0) \<noteq> None"
    proof (cases rule: step_cases)
      case (check st')
      with a show ?thesis by simp
    next
      case (return st')
      with a show ?thesis by simp
    qed simp_all
    with sh' have "isDone (scopes s') (ctxWithCancel s')" by (simp add: shaped_def isDone_def)
    with s' show ?thesis by blast
  qed
  have second: "isDone (scopes t) (ctxWithCancel t) \<and>
      (pcTwo t = Two_Done \<longrightarrow> (\<exists>t'. step TaskTwo t = Some t'))"
    if b: "run sched' (simTwoTasks_init r') = Some t" "pcParent t = P_recv"
      "\<exists>e \<in> set (collected t). e \<noteq> None"
  proof -
    from b(1) have "inv t" by (rule reachable_inv)
    then have sh: "shaped t" and so: "sound t" by (simp_all add: inv_def)
    from b(3) have ne: "collected t \<noteq> []" by auto
    from so have "pcParent t \<noteq> P_check \<and> collected t \<noteq> [] \<longrightarrow> Err (scopes t) (Suc 0) \<noteq> None"
      by (simp add: sound_def)
    with b(2) ne have "Err (scopes t) (Suc 0) \<noteq> None" by simp
    with sh have d: "isDone (scopes t) (ctxWithCancel t)" by (simp add: shaped_def isDone_def)
    then show ?thesis by (simp add: stepTwo_def)
  qed
  from first second show ?thesis by blast
qed

theorem collector_cancels_shared_scope_witness:
  "(run [TaskOne, Timer, TaskOne, TaskOne, TaskOne, TaskOne] (simTwoTasks_init None)
      = Some (the (run [TaskOne, Timer, TaskOne, TaskOne, TaskOne, TaskOne] (simTwoTasks_init None))) \<and>
    pcParent (the (run [TaskOne, Timer, TaskOne, TaskOne, TaskOne, TaskOne] (simTwoTasks_init None))) = P_check \<and>
    lastErr (the (run [TaskOne, Timer, TaskOne, TaskOne, TaskOne, TaskOne] (simTwoTasks_init None))) \<noteq> None) \<and>
   (\<exists>s'. step Handler (the (run [TaskOne, Timer, TaskOne, TaskOne, TaskOne, TaskOne] (simTwoTasks_init None))) = Some s' \<and>
         isDone (scopes s') (ctxWithCancel s')) \<and>
   (run [TaskOne, Timer, TaskOne, TaskOne, TaskOne, TaskOne, Handler] (simTwoTasks_init None)
      = Some (the (run [TaskOne, Timer, TaskOne, TaskOne, TaskOne, TaskOne, Handler] (simTwoTasks_init None))) \<and>
    pcParent (the (run [TaskOne, Timer, TaskOne, TaskOne, TaskOne, TaskOne, Handler] (simTwoTasks_init None))) = P_recv \<and>
    (\<exists>e \<in> set (collected (the (run [TaskOne, Timer, TaskOne, TaskOne, TaskOne, TaskOne, Handler] (simTwoTasks_init None)))). e \<noteq> None)) \<and>
   isDone (scopes (the (run [TaskOne, Timer, TaskOne, TaskOne, TaskOne, TaskOne, Handler] (simTwoTasks_init None))))
     (ctxWithCancel (the (run [TaskOne, Timer, TaskOne, TaskOne, TaskOne, TaskOne, Handler] (simTwoTasks_init None)))) \<and>
   pcTwo (the (run [TaskOne, Timer, TaskOne, TaskOne, TaskOne, TaskOne, Handler] (simTwoTasks_init None))) = Two_Done \<and>
   (\<exists>t'. step TaskTwo (the (run [TaskOne, Timer, TaskOne, TaskOne, TaskOne, TaskOne, Handler] (simTwoTasks_init None))) = Some t')"
proof -
  let ?A = "[TaskOne, Timer, TaskOne, TaskOne, TaskOne, TaskOne]"
  let ?B = "[TaskOne, Timer, TaskOne, TaskOne, TaskOne, TaskOne, Handler]"
  let ?s = "the (run ?A (simTwoTasks_init None))"
  let ?t = "the (run ?B (simTwoTasks_init None))"
  have a1: "run ?A (simTwoTasks_init None) = Some ?s" by code_simp
  have a2: "pcParent ?s = P_check" by code_simp
  have a3: "lastErr ?s \<noteq> None" by code_simp
  have b1: "run ?B (simTwoTasks_init None) = Some ?t" by code_simp
  have b2: "pcParent ?t = P_recv" by code_simp
  have b3: "\<exists>e \<in> set (collected ?t). e \<noteq> None" by code_simp
  have b4: "pcTwo ?t = Two_Done" by code_simp
  from collector_cancels_shared_scope [of ?A None ?s ?B None ?t] a1 a2 a3 b1 b2 b3 b4
  show ?thesis by simp
qed

text \<open>
  Claim C10. \<^verbatim>\<open>simTwoTasks\<close> never returns nil: the returned error is \<^verbatim>\<open>Canceled\<close> or
  \<^verbatim>\<open>DeadlineExceeded\<close>. And it does return: no run has more than 15 steps, and every run
  can be continued, without the request scope firing, to the return of the collector.
\<close>

theorem simTwoTasks_never_succeeds:
  "(simTwoTasks sched r = Some e \<longrightarrow> e = Some Canceled \<or> e = Some DeadlineExceeded) \<and>
   (run sched' (simTwoTasks_init r') = Some s \<longrightarrow>
      length sched' \<le> 15 \<and>
      (\<exists>rest e. quiet rest \<and> simTwoTasks (sched' @ rest) r' = Some e))"
proof (intro conjI impI)
  assume "simTwoTasks sched r = Some e"
  then obtain s where s: "run sched (simTwoTasks_init r) = Some s" "pcParent s = P_exit" "lastErr s = e"
    by (auto simp: simTwoTasks_Some)
  from exit_collected [OF reachable_inv [OF s(1)] s(2)] have "lastErr s \<noteq> None" by blast
  with s(3) have "e \<noteq> None" by simp
  then obtain c where "e = Some c" by auto
  then show "e = Some Canceled \<or> e = Some DeadlineExceeded" by (cases c) simp_all
next
  assume r: "run sched' (simTwoTasks_init r') = Some s"
  from run_bounded [OF inv_init r] todo_init [of r'] show "length sched' \<le> 15" by simp
  from completes [OF reachable_inv [OF r]] obtain rest s' where
    "quiet rest" "run rest s = Some s'" "pcParent s' = P_exit" by blast
  with r have "quiet rest \<and> simTwoTasks (sched' @ rest) r' = Some (lastErr s')"
    by (simp add: simTwoTasks_def run_append)
  then show "\<exists>rest e. quiet rest \<and> simTwoTasks (sched' @ rest) r' = Some e" by blast
qed

theorem simTwoTasks_never_succeeds_witness:
  "simTwoTasks [TaskOne, Timer, TaskOne, TaskOne, TaskOne, TaskOne, Handler,
                TaskTwo, TaskTwo, TaskTwo, Handler, Handler] None = Some (Some Canceled) \<and>
   run [TaskOne, TaskOne] (simTwoTasks_init (Some DeadlineExceeded))
     = Some (the (run [TaskOne, TaskOne] (simTwoTasks_init (Some DeadlineExceeded)))) \<and>
   length [TaskOne, TaskOne] \<le> 15 \<and>
   (\<exists>rest e. quiet rest \<and> simTwoTasks ([TaskOne, TaskOne] @ rest) (Some DeadlineExceeded) = Some e)"
proof -
  have h: "simTwoTasks [TaskOne, Timer, TaskOne, TaskOne, TaskOne, TaskOne, Handler,
                TaskTwo, TaskTwo, TaskTwo, Handler, Handler] None = Some (Some Canceled)"
    by code_simp
  have r: "run [TaskOne, TaskOne] (simTwoTasks_init (Some DeadlineExceeded))
     = Some (the (run [TaskOne, TaskOne] (simTwoTasks_init (Some DeadlineExceeded))))"
    by code_simp
  from simTwoTasks_never_succeeds
    [of "[TaskOne, Timer, TaskOne, TaskOne, TaskOne, TaskOne, Handler,
          TaskTwo, TaskTwo, TaskTwo, Handler, Handler]" None "Some Canceled"
        "[TaskOne, TaskOne]" "Some DeadlineExceeded"
        "the (run [TaskOne, TaskOne] (simTwoTasks_init (Some DeadlineExceeded)))"] h r
  show ?thesis by simp
qed

section \<open>The two-task group while the request scope stays live\<close>

lemma ordered_init: "ordered (simTwoTasks_init r)"
  by (simp add: ordered_def simTwoTasks_init_def requestCtx_def init_shape Err_def [of _ 2])

lemma calm_two_exit: "calm s \<Longrightarrow> Err (scopes s) 0 = None \<Longrightarrow> pcTwo s = Two_exit \<Longrightarrow> pcOne s = One_exit"
  by (simp add: calm_def)

lemma sound_one_done: "sound s \<Longrightarrow> pcOne s = One_exit \<Longrightarrow> Err (scopes s) 2 \<noteq> None"
  by (simp add: sound_def)

lemma ordered_step:
  assumes sh: "shaped s" and st: "step a s = Some s'" and so: "sound s" and ca: "calm s"
    and od: "ordered s"
  shows "ordered s'"
proof (cases "Err (scopes s') 0")
  case (Some y)
  then show ?thesis by (simp add: ordered_def)
next
  case None
  from sh st show ?thesis
  proof (cases rule: step_cases)
    case create
    with None have r: "Err (scopes s) 0 = None" by simp
    have "Err (scopes s) (Suc 0) = None"
    proof (rule ccontr)
      assume "Err (scopes s) (Suc 0) \<noteq> None"
      with ca r have ne: "collected s \<noteq> []" by (simp add: calm_def)
      from create(2) have "pcOne s \<noteq> One_exit" by simp
      with calm_two_exit [OF ca r] have "pcTwo s \<noteq> Two_exit" by blast
      from sound_first_is_one [OF so ne this] create(2) show False by simp
    qed
    with od r create show ?thesis by (simp add: ordered_def)
  next
    case wait1
    with od show ?thesis by (simp add: ordered_def)
  next
    case cancel1
    from so cancel1(2) have "Err (scopes s) 2 \<noteq> None" by (simp add: sound_def)
    with od cancel1 show ?thesis by (simp add: ordered_def)
  next
    case err1
    with od show ?thesis by (simp add: ordered_def)
  next
    case send1
    with None have r: "Err (scopes s) 0 = None" by simp
    from send1(2) have "pcOne s \<noteq> One_exit" by simp
    with calm_two_exit [OF ca r] have two: "pcTwo s \<noteq> Two_exit" by blast
    from so send1(2) have "errOne s = Err (scopes s) 2" "Err (scopes s) 2 \<noteq> None"
      by (simp_all add: sound_def)
    with od r have "errOne s = Some DeadlineExceeded" by (simp add: ordered_def)
    with od r two send1 show ?thesis by (simp add: ordered_def)
  next
    case wait2
    with od show ?thesis by (simp add: ordered_def)
  next
    case err2
    with od show ?thesis by (simp add: ordered_def)
  next
    case send2
    with None have r: "Err (scopes s) 0 = None" by simp
    from so send2(2) have w: "Err (scopes s) (Suc 0) \<noteq> None" and e: "errTwo s = Err (scopes s) (Suc 0)"
      by (simp_all add: sound_def)
    with ca r have c: "errTwo s = Some Canceled" and ne: "collected s \<noteq> []"
      by (simp_all add: calm_def)
    from sound_first_is_one [OF so ne] send2(2) have "pcOne s = One_exit" by simp
    with od r c send2 show ?thesis by (simp add: ordered_def)
  next
    case (check st')
    with None have r: "Err (scopes s) 0 = None" by simp
    from sound_check_ne [OF so check(2)] have ne: "collected s \<noteq> []" .
    have "pcOne s = One_exit"
    proof (cases "pcTwo s = Two_exit")
      case True
      with calm_two_exit [OF ca r] show ?thesis by simp
    next
      case False
      from sound_first_is_one [OF so ne False] show ?thesis .
    qed
    from sound_one_done [OF so this] have "Err (scopes s) 2 \<noteq> None" .
    with od r check(3,4,6) show ?thesis by (simp add: ordered_def)
  next
    case (return st')
    with None have r: "Err (scopes s) 0 = None" by simp
    from sound_return_all [OF so] return(2) have "pcOne s = One_exit" by simp
    from sound_one_done [OF so this] have "Err (scopes s) 2 \<noteq> None" .
    with od r return(3,4,6) show ?thesis by (simp add: ordered_def)
  next
    case (timer st')
    with od show ?thesis by (simp add: ordered_def)
  next
    case (request e st')
    with None show ?thesis by simp
  qed
qed

lemma ordered_run: "inv s \<Longrightarrow> ordered s \<Longrightarrow> run sched s = Some s' \<Longrightarrow> ordered s'"
proof (induction sched arbitrary: s)
  case Nil
  then show ?case by simp
next
  case (Cons a sched)
  from Cons.prems(3) obtain s1 where s1: "step a s = Some s1" and r: "run sched s1 = Some s'"
    by (auto split: option.splits)
  from Cons.prems(1) have "shaped s" "sound s" "calm s" by (simp_all add: inv_def)
  from ordered_step [OF this(1) s1 this(2,3) Cons.prems(2)] have "ordered s1" .
  from Cons.IH [OF inv_step [OF Cons.prems(1) s1] this r] show ?case .
qed

lemma quiet_exit:
  assumes "quiet sched" and "run sched (simTwoTasks_init None) = Some s" and "pcParent s = P_exit"
  shows "collected s = [Some DeadlineExceeded, Some Canceled] \<and> lastErr s = Some Canceled"
proof -
  from assms(2) have i: "inv s" by (rule reachable_inv)
  from ordered_run [OF inv_init ordered_init assms(2)] have od: "ordered s" .
  from quiet_run [OF inv_init assms(1,2)] have r: "Err (scopes s) 0 = None"
    by (simp add: simTwoTasks_init_def requestCtx_def init_shape)
  from i have so: "sound s" by (simp add: inv_def)
  from sound_return_all [OF so] assms(3) have "pcOne s = One_exit" "pcTwo s = Two_exit" by simp_all
  with od r have "collected s = [Some DeadlineExceeded, Some Canceled]" by (simp add: ordered_def)
  moreover from exit_quiet [OF i assms(3) r] have "lastErr s = Some Canceled" .
  ultimately show ?thesis by simp
qed

section \<open>The reachable states of the deadline branch\<close>

lemma Err_requestScope [simp]: "Err (requestScope r) 0 = r" "Err (requestScope r) (Suc 0) = None"
  by (simp_all add: requestScope_def Err_def)

lemma requestScope_inj [simp]: "requestScope r = requestScope r' \<longleftrightarrow> r = r'"
  by (simp add: requestScope_def)

lemma dshape_inj [simp]: "dshape r tm d = dshape r' tm' d' \<longleftrightarrow> r = r' \<and> tm = tm' \<and> d = d'"
  by (simp add: dshape_def)

lemma dshape_simps [simp]:
  "Err (dshape r tm d) 0 = r" "Err (dshape r tm d) (Suc 0) = d"
  "timer (dshape r tm d ! Suc 0) = tm" "length (dshape r tm d) = 2"
  by (simp_all add: dshape_def Err_def)

lemma WithTimeout_requestScope:
  "WithTimeout 0 10 (requestScope r) = (1, dshape r (r = None) r)"
  by (simp add: WithTimeout_def requestScope_def dshape_def Err_def)

lemma fire0_requestScope: "fire 0 e (requestScope r) = requestScope (orElse r e)"
  by (cases r) (simp_all add: fire_def requestScope_def)

lemma fire0_dshape:
  "fire 0 e (dshape r tm d) = (if r = None then dshape (Some e) tm (orElse d e) else dshape r tm d)"
  by (cases d) (simp_all add: fire_def dshape_def)

lemma fire1_dshape: "fire (Suc 0) e (dshape r tm d) = dshape r tm (orElse d e)"
  by (cases d) (simp_all add: fire_def dshape_def)

lemma dinv_init: "dinv (deadline_init r)"
  by (simp add: dinv_def deadline_init_def)

lemma dinvE1:
  assumes "dinv s" "dpc s = D_WithTimeout"
  obtains r where "dscopes s = requestScope r" "dctx s = None"
proof -
  from assms have "dscopes s = requestScope (Err (dscopes s) 0)" "dctx s = None"
    by (simp_all add: dinv_def)
  then show ?thesis by (rule that)
qed

lemma dinvE2:
  assumes "dinv s" "dpc s \<noteq> D_WithTimeout"
  obtains r tm d where "dscopes s = dshape r tm d" "dctx s = Some 1" "tm \<or> d \<noteq> None"
    "dpc s = D_cancel \<or> dpc s = D_Err \<or> dpc s = D_return \<longrightarrow> d \<noteq> None"
    "dpc s = D_return \<longrightarrow> derr s = d" "d = Some Canceled \<longrightarrow> r = Some Canceled"
proof -
  from assms have "dscopes s = dshape (Err (dscopes s) 0) (timer (dscopes s ! 1)) (Err (dscopes s) 1)"
    "dctx s = Some 1" "timer (dscopes s ! 1) \<or> Err (dscopes s) 1 \<noteq> None"
    "dpc s = D_cancel \<or> dpc s = D_Err \<or> dpc s = D_return \<longrightarrow> Err (dscopes s) 1 \<noteq> None"
    "dpc s = D_return \<longrightarrow> derr s = Err (dscopes s) 1"
    "Err (dscopes s) 1 = Some Canceled \<longrightarrow> Err (dscopes s) 0 = Some Canceled"
    by (simp_all add: dinv_def)
  then show ?thesis by (rule that)
qed

lemma dinv_step:
  assumes iv: "dinv s" and st: "dstep a s = Some s'"
  shows "dinv s' \<and> (a \<noteq> CallerCancels \<and> Err (dscopes s) 0 \<noteq> Some Canceled \<longrightarrow> Err (dscopes s') 0 \<noteq> Some Canceled)"
proof (cases "dpc s = D_WithTimeout")
  case True
  with iv obtain r where sc: "dscopes s = requestScope r" "dctx s = None" by (rule dinvE1)
  show ?thesis
  proof (cases a)
    case Handler
    with st True sc show ?thesis
      by (auto simp: dinv_def dstepHandler_def requestCtx_def WithTimeout_requestScope)
  next
    case Timer
    with st sc show ?thesis by (simp add: dstepTimer_def)
  next
    case CallerCancels
    with st True sc show ?thesis
      by (auto simp: dinv_def dstepRequest_def requestCtx_def fire0_requestScope isDone_def split: if_splits)
  next
    case RequestDeadline
    with st True sc show ?thesis
      by (auto simp: dinv_def dstepRequest_def requestCtx_def fire0_requestScope isDone_def split: if_splits)
  next
    case TaskOne
    with st show ?thesis by simp
  next
    case TaskTwo
    with st show ?thesis by simp
  qed
next
  case False
  with iv obtain r tm d where sc: "dscopes s = dshape r tm d" "dctx s = Some 1" "tm \<or> d \<noteq> None"
    "dpc s = D_cancel \<or> dpc s = D_Err \<or> dpc s = D_return \<longrightarrow> d \<noteq> None"
    "dpc s = D_return \<longrightarrow> derr s = d" "d = Some Canceled \<longrightarrow> r = Some Canceled"
    by (rule dinvE2)
  show ?thesis
  proof (cases a)
    case Handler
    with st False sc show ?thesis
      by (cases "dpc s"; cases d)
         (auto simp: dinv_def dstepHandler_def cancelFn_def fire1_dshape isDone_def split: if_splits)
  next
    case Timer
    with st False sc show ?thesis
      by (cases d)
         (auto simp: dinv_def dstepTimer_def deadlineElapses_def fire1_dshape isDone_def split: if_splits)
  next
    case CallerCancels
    with st False sc show ?thesis
      by (cases d)
         (auto simp: dinv_def dstepRequest_def requestCtx_def fire0_dshape isDone_def split: if_splits)
  next
    case RequestDeadline
    with st False sc show ?thesis
      by (cases d)
         (auto simp: dinv_def dstepRequest_def requestCtx_def fire0_dshape isDone_def split: if_splits)
  next
    case TaskOne
    with st show ?thesis by simp
  next
    case TaskTwo
    with st show ?thesis by simp
  qed
qed

lemma drun_append:
  "drun (xs @ ys) s = (case drun xs s of None \<Rightarrow> None | Some s' \<Rightarrow> drun ys s')"
  by (induction xs arbitrary: s) (auto split: option.splits)

lemma dinv_run:
  "dinv s \<Longrightarrow> drun sched s = Some s' \<Longrightarrow>
     dinv s' \<and> (CallerCancels \<notin> set sched \<and> Err (dscopes s) 0 \<noteq> Some Canceled
                 \<longrightarrow> Err (dscopes s') 0 \<noteq> Some Canceled)"
proof (induction sched arbitrary: s)
  case Nil
  then show ?case by simp
next
  case (Cons a sched)
  from Cons.prems(2) obtain s1 where s1: "dstep a s = Some s1" and r: "drun sched s1 = Some s'"
    by (auto split: option.splits)
  from dinv_step [OF Cons.prems(1) s1] have i1: "dinv s1"
    and k1: "a \<noteq> CallerCancels \<and> Err (dscopes s) 0 \<noteq> Some Canceled \<longrightarrow> Err (dscopes s1) 0 \<noteq> Some Canceled"
    by blast+
  from Cons.IH [OF i1 r] have i': "dinv s'"
    and k': "CallerCancels \<notin> set sched \<and> Err (dscopes s1) 0 \<noteq> Some Canceled \<longrightarrow> Err (dscopes s') 0 \<noteq> Some Canceled"
    by blast+
  from k1 k' have "CallerCancels \<notin> set (a # sched) \<and> Err (dscopes s) 0 \<noteq> Some Canceled
                 \<longrightarrow> Err (dscopes s') 0 \<noteq> Some Canceled"
    by auto
  with i' show ?case by blast
qed

lemma deadlineAction_Some:
  "deadlineAction sched r = Some e \<longleftrightarrow>
     (\<exists>s. drun sched (deadline_init r) = Some s \<and> dpc s = D_return \<and> derr s = e)"
  by (auto simp: deadlineAction_def split: option.splits)

lemma deadlineAction_result:
  assumes "deadlineAction sched r = Some e"
  shows "e \<noteq> None \<and> (r \<noteq> Some Canceled \<and> CallerCancels \<notin> set sched \<longrightarrow> e = Some DeadlineExceeded)"
proof -
  from assms obtain s where s: "drun sched (deadline_init r) = Some s" "dpc s = D_return" "derr s = e"
    by (auto simp: deadlineAction_Some)
  from dinv_run [OF dinv_init s(1)] have i: "dinv s"
    and k: "CallerCancels \<notin> set sched \<and> r \<noteq> Some Canceled \<longrightarrow> Err (dscopes s) 0 \<noteq> Some Canceled"
    by (simp_all add: deadline_init_def)
  from i s(2,3) have e: "e = Err (dscopes s) 1" "Err (dscopes s) 1 \<noteq> None"
    and c: "Err (dscopes s) 1 = Some Canceled \<longrightarrow> Err (dscopes s) 0 = Some Canceled"
    by (simp_all add: dinv_def)
  from e obtain x where x: "e = Some x" by auto
  have "r \<noteq> Some Canceled \<and> CallerCancels \<notin> set sched \<longrightarrow> e = Some DeadlineExceeded"
  proof
    assume "r \<noteq> Some Canceled \<and> CallerCancels \<notin> set sched"
    with k have "Err (dscopes s) 0 \<noteq> Some Canceled" by simp
    with c e(1) have "e \<noteq> Some Canceled" by auto
    with x show "e = Some DeadlineExceeded" by (cases x) simp_all
  qed
  with x show ?thesis by simp
qed

lemma dprogress:
  assumes iv: "dinv s" and nr: "dpc s \<noteq> D_return"
  shows "\<exists>a s'. a \<noteq> CallerCancels \<and> a \<noteq> RequestDeadline \<and> dstep a s = Some s' \<and> dtodo s' < dtodo s"
proof (cases "dpc s = D_WithTimeout")
  case True
  with iv obtain r where sc: "dscopes s = requestScope r" "dctx s = None" by (rule dinvE1)
  have "live r \<le> Suc 0" by (rule live_le)
  with True sc have "\<exists>s'. dstep Handler s = Some s' \<and> dtodo s' < dtodo s"
    by (simp add: dstepHandler_def requestCtx_def WithTimeout_requestScope dtodo_def)
  then show ?thesis by blast
next
  case False
  with iv obtain r tm d where sc: "dscopes s = dshape r tm d" "dctx s = Some 1" "tm \<or> d \<noteq> None"
    "dpc s = D_cancel \<or> dpc s = D_Err \<or> dpc s = D_return \<longrightarrow> d \<noteq> None"
    "dpc s = D_return \<longrightarrow> derr s = d" "d = Some Canceled \<longrightarrow> r = Some Canceled"
    by (rule dinvE2)
  show ?thesis
  proof (cases "dpc s")
    case D_WithTimeout
    with False show ?thesis by simp
  next
    case D_Done
    show ?thesis
    proof (cases d)
      case None
      with sc D_Done have "\<exists>s'. dstep Timer s = Some s' \<and> dtodo s' < dtodo s"
        by (simp add: dstepTimer_def deadlineElapses_def fire1_dshape isDone_def dtodo_def)
      then show ?thesis by blast
    next
      case (Some y)
      with sc D_Done have "\<exists>s'. dstep Handler s = Some s' \<and> dtodo s' < dtodo s"
        by (simp add: dstepHandler_def isDone_def dtodo_def)
      then show ?thesis by blast
    qed
  next
    case D_cancel
    with sc have "\<exists>s'. dstep Handler s = Some s' \<and> dtodo s' < dtodo s"
      by (cases d) (simp_all add: dstepHandler_def cancelFn_def fire1_dshape dtodo_def)
    then show ?thesis by blast
  next
    case D_Err
    with sc have "\<exists>s'. dstep Handler s = Some s' \<and> dtodo s' < dtodo s"
      by (simp add: dstepHandler_def dtodo_def)
    then show ?thesis by blast
  next
    case D_return
    with nr show ?thesis by simp
  qed
qed

lemma dcompletes:
  "dinv s \<Longrightarrow> \<exists>sched s'. quiet sched \<and> drun sched s = Some s' \<and> dpc s' = D_return"
proof (induction "dtodo s" arbitrary: s rule: less_induct)
  case less
  show ?case
  proof (cases "dpc s = D_return")
    case True
    then have "quiet [] \<and> drun [] s = Some s \<and> dpc s = D_return" by (simp add: quiet_def)
    then show ?thesis by blast
  next
    case False
    from dprogress [OF less.prems False] obtain a s1 where
      a: "a \<noteq> CallerCancels" "a \<noteq> RequestDeadline" and s1: "dstep a s = Some s1"
      and d: "dtodo s1 < dtodo s"
      by blast
    from dinv_step [OF less.prems s1] have "dinv s1" by blast
    from less.hyps [OF d this] obtain sched s' where
      "quiet sched" "drun sched s1 = Some s'" "dpc s' = D_return"
      by blast
    with a s1 have "quiet (a # sched) \<and> drun (a # sched) s = Some s' \<and> dpc s' = D_return"
      by (simp add: quiet_def)
    then show ?thesis by blast
  qed
qed

lemma Echo_deadline:
  "Action request = ServerAction_RETURN_CONTEXT_DEADLINE_EXCEEDED \<Longrightarrow>
   Echo sched sv r request =
     (case deadlineAction sched r of
        None \<Rightarrow> None
      | Some e \<Rightarrow> Some \<lparr>srv = sv\<lparr>requestID := requestID sv + 1\<rparr>, slept = None,
                          resp = None, rerr = map_option ContextError e\<rparr>)"
  by (simp add: Echo_def Let_def ServerAction_RETURN_CONTEXT_DEADLINE_EXCEEDED_def
      ServerAction_UNSPECIFIED_def)

lemma Echo_canceled:
  "Action request = ServerAction_RETURN_CONTEXT_CANCELED \<Longrightarrow>
   Echo sched sv r request =
     (case simTwoTasks sched r of
        None \<Rightarrow> None
      | Some e \<Rightarrow> Some \<lparr>srv = sv\<lparr>requestID := requestID sv + 1\<rparr>, slept = None,
                          resp = None, rerr = map_option ContextError e\<rparr>)"
  by (simp add: Echo_def Let_def ServerAction_RETURN_CONTEXT_DEADLINE_EXCEEDED_def
      ServerAction_UNSPECIFIED_def ServerAction_RETURN_CONTEXT_CANCELED_def)

section \<open>Claims about the branches of the handler that wait\<close>

text \<open>
  Claim C2, as amended. A call with action \<^verbatim>\<open>RETURN_CONTEXT_CANCELED\<close> on a request scope
  that has not fired at entry and does not fire during the call returns, with no response
  and the wire status \<^verbatim>\<open>CANCELLED\<close>: task one reports \<^verbatim>\<open>DeadlineExceeded\<close> first, task
  two reports \<^verbatim>\<open>Canceled\<close> after it. Every run of the group can be continued to the
  return without the request scope firing.

  As stated, for every call on a request scope that has not fired at entry, the claim
  fails: when the deadline of the request scope elapses during the call, both tasks can
  report \<^verbatim>\<open>DeadlineExceeded\<close>, and the wire status is then \<^verbatim>\<open>DEADLINE_EXCEEDED\<close>.
\<close>

theorem Echo_return_context_canceled:
  "Action request = ServerAction_RETURN_CONTEXT_CANCELED \<longrightarrow>
     (run sched' (simTwoTasks_init None) = Some s \<longrightarrow>
        (\<exists>rest res. quiet rest \<and> Echo (sched' @ rest) sv None request = Some res)) \<and>
     (quiet sched \<and> Echo sched sv None request = Some res \<longrightarrow>
        resp res = None \<and> rerr res = Some (ContextError Canceled) \<and>
        wireStatus (rerr res) = codes_Canceled \<and>
        map_option collected (run sched (simTwoTasks_init None))
          = Some [Some DeadlineExceeded, Some Canceled])"
proof
  assume act: "Action request = ServerAction_RETURN_CONTEXT_CANCELED"
  have first: "\<exists>rest res. quiet rest \<and> Echo (sched' @ rest) sv None request = Some res"
    if run: "run sched' (simTwoTasks_init None) = Some s"
  proof -
    from completes [OF reachable_inv [OF run]] obtain rest s' where
      rest: "quiet rest" "run rest s = Some s'" "pcParent s' = P_exit" by blast
    with run have "simTwoTasks (sched' @ rest) None = Some (lastErr s')"
      by (simp add: simTwoTasks_def run_append)
    with rest(1) have "quiet rest \<and> Echo (sched' @ rest) sv None request \<noteq> None"
      by (simp add: Echo_canceled [OF act])
    then show ?thesis by blast
  qed
  have second: "resp res = None \<and> rerr res = Some (ContextError Canceled) \<and>
        wireStatus (rerr res) = codes_Canceled \<and>
        map_option collected (run sched (simTwoTasks_init None))
          = Some [Some DeadlineExceeded, Some Canceled]"
    if h: "quiet sched" "Echo sched sv None request = Some res"
  proof -
    from h(2) obtain e where e: "simTwoTasks sched None = Some e"
      and res: "res = \<lparr>srv = sv\<lparr>requestID := requestID sv + 1\<rparr>, slept = None,
                          resp = None, rerr = map_option ContextError e\<rparr>"
      by (auto simp: Echo_canceled [OF act] split: option.splits)
    from e obtain t where t: "run sched (simTwoTasks_init None) = Some t" "pcParent t = P_exit"
      "lastErr t = e"
      by (auto simp: simTwoTasks_Some)
    from quiet_exit [OF h(1) t(1,2)] t(3) have "e = Some Canceled"
      "collected t = [Some DeadlineExceeded, Some Canceled]" by simp_all
    with res t(1) show ?thesis by simp
  qed
  from first second
  show "(run sched' (simTwoTasks_init None) = Some s \<longrightarrow>
        (\<exists>rest res. quiet rest \<and> Echo (sched' @ rest) sv None request = Some res)) \<and>
     (quiet sched \<and> Echo sched sv None request = Some res \<longrightarrow>
        resp res = None \<and> rerr res = Some (ContextError Canceled) \<and>
        wireStatus (rerr res) = codes_Canceled \<and>
        map_option collected (run sched (simTwoTasks_init None))
          = Some [Some DeadlineExceeded, Some Canceled])"
    by blast
qed

theorem Echo_return_context_canceled_witness:
  "Action \<lparr>Input = ''abc'', ServerSleep = None, Action = ServerAction_RETURN_CONTEXT_CANCELED\<rparr>
     = ServerAction_RETURN_CONTEXT_CANCELED \<and>
   run [TaskOne, Timer] (simTwoTasks_init None) = Some (the (run [TaskOne, Timer] (simTwoTasks_init None))) \<and>
   (\<exists>rest res. quiet rest \<and>
      Echo ([TaskOne, Timer] @ rest) (newServer 0) None
        \<lparr>Input = ''abc'', ServerSleep = None, Action = ServerAction_RETURN_CONTEXT_CANCELED\<rparr> = Some res) \<and>
   quiet [TaskOne, Timer, TaskOne, TaskOne, TaskOne, TaskOne, Handler,
          TaskTwo, TaskTwo, TaskTwo, Handler, Handler] \<and>
   Echo [TaskOne, Timer, TaskOne, TaskOne, TaskOne, TaskOne, Handler,
         TaskTwo, TaskTwo, TaskTwo, Handler, Handler] (newServer 0) None
      \<lparr>Input = ''abc'', ServerSleep = None, Action = ServerAction_RETURN_CONTEXT_CANCELED\<rparr>
     = Some \<lparr>srv = \<lparr>responseSleep = 0, requestID = 1\<rparr>, slept = None, resp = None,
             rerr = Some (ContextError Canceled)\<rparr> \<and>
   wireStatus (rerr \<lparr>srv = \<lparr>responseSleep = 0, requestID = 1\<rparr>, slept = None, resp = None,
             rerr = Some (ContextError Canceled)\<rparr>) = codes_Canceled"
proof -
  let ?req = "\<lparr>Input = ''abc'', ServerSleep = None, Action = ServerAction_RETURN_CONTEXT_CANCELED\<rparr>"
  let ?sched = "[TaskOne, Timer, TaskOne, TaskOne, TaskOne, TaskOne, Handler,
         TaskTwo, TaskTwo, TaskTwo, Handler, Handler]"
  let ?res = "\<lparr>srv = \<lparr>responseSleep = 0, requestID = 1\<rparr>, slept = None, resp = None,
             rerr = Some (ContextError Canceled)\<rparr>"
  have a: "Action ?req = ServerAction_RETURN_CONTEXT_CANCELED" by simp
  have p: "run [TaskOne, Timer] (simTwoTasks_init None) = Some (the (run [TaskOne, Timer] (simTwoTasks_init None)))"
    by code_simp
  have q: "quiet ?sched" by (simp add: quiet_def)
  have "simTwoTasks ?sched None = Some (Some Canceled)" by code_simp
  then have e: "Echo ?sched (newServer 0) None ?req = Some ?res"
    by (simp add: Echo_canceled newServer_def)
  from Echo_return_context_canceled
    [of ?req "[TaskOne, Timer]" "the (run [TaskOne, Timer] (simTwoTasks_init None))" "newServer 0" ?sched ?res]
    a p q e
  show ?thesis by simp
qed

text \<open>
  The run against Claim C2 as stated: the request scope is live at entry, its deadline
  elapses after task one has derived its scope, and the call returns
  \<^verbatim>\<open>DEADLINE_EXCEEDED\<close>.
\<close>

theorem Echo_return_context_canceled_counterexample:
  "Echo [TaskOne, RequestDeadline, TaskOne, TaskOne, TaskOne, TaskOne, Handler,
         TaskTwo, TaskTwo, TaskTwo, Handler, Handler] (newServer 0) None
      \<lparr>Input = ''abc'', ServerSleep = None, Action = ServerAction_RETURN_CONTEXT_CANCELED\<rparr> \<noteq> None \<and>
   wireStatus (rerr (the (Echo [TaskOne, RequestDeadline, TaskOne, TaskOne, TaskOne, TaskOne, Handler,
         TaskTwo, TaskTwo, TaskTwo, Handler, Handler] (newServer 0) None
      \<lparr>Input = ''abc'', ServerSleep = None, Action = ServerAction_RETURN_CONTEXT_CANCELED\<rparr>)))
     = codes_DeadlineExceeded"
proof -
  have "simTwoTasks [TaskOne, RequestDeadline, TaskOne, TaskOne, TaskOne, TaskOne, Handler,
         TaskTwo, TaskTwo, TaskTwo, Handler, Handler] None = Some (Some DeadlineExceeded)"
    by code_simp
  then show ?thesis by (simp add: Echo_canceled)
qed

text \<open>
  Claim C6, as amended. A call with action \<^verbatim>\<open>RETURN_CONTEXT_DEADLINE_EXCEEDED\<close> whose
  request scope is not cancelled, neither before the call nor during it, returns with no
  response and the wire status \<^verbatim>\<open>DEADLINE_EXCEEDED\<close>; this includes a request scope whose
  deadline has elapsed at entry or elapses during the call. Every run of the branch can
  be continued to the return.

  As stated, regardless of the state of the request scope, the claim fails: on a request
  scope that is already cancelled at entry the derived scope is created with the cause
  \<^verbatim>\<open>Canceled\<close>, and the wire status is \<^verbatim>\<open>CANCELLED\<close>.
\<close>

theorem Echo_return_context_deadline_exceeded:
  "Action request = ServerAction_RETURN_CONTEXT_DEADLINE_EXCEEDED \<longrightarrow>
     (drun sched' (deadline_init r') = Some s \<longrightarrow>
        (\<exists>rest res. quiet rest \<and> Echo (sched' @ rest) sv r' request = Some res)) \<and>
     (r \<noteq> Some Canceled \<and> CallerCancels \<notin> set sched \<and> Echo sched sv r request = Some res \<longrightarrow>
        resp res = None \<and> rerr res = Some (ContextError DeadlineExceeded) \<and>
        wireStatus (rerr res) = codes_DeadlineExceeded)"
proof
  assume act: "Action request = ServerAction_RETURN_CONTEXT_DEADLINE_EXCEEDED"
  have first: "\<exists>rest res. quiet rest \<and> Echo (sched' @ rest) sv r' request = Some res"
    if run: "drun sched' (deadline_init r') = Some s"
  proof -
    from dinv_run [OF dinv_init run] have "dinv s" by blast
    from dcompletes [OF this] obtain rest s' where
      rest: "quiet rest" "drun rest s = Some s'" "dpc s' = D_return" by blast
    with run have "deadlineAction (sched' @ rest) r' = Some (derr s')"
      by (simp add: deadlineAction_def drun_append)
    with rest(1) have "quiet rest \<and> Echo (sched' @ rest) sv r' request \<noteq> None"
      by (simp add: Echo_deadline [OF act])
    then show ?thesis by blast
  qed
  have second: "resp res = None \<and> rerr res = Some (ContextError DeadlineExceeded) \<and>
        wireStatus (rerr res) = codes_DeadlineExceeded"
    if h: "r \<noteq> Some Canceled" "CallerCancels \<notin> set sched" "Echo sched sv r request = Some res"
  proof -
    from h(3) obtain e where e: "deadlineAction sched r = Some e"
      and res: "res = \<lparr>srv = sv\<lparr>requestID := requestID sv + 1\<rparr>, slept = None,
                          resp = None, rerr = map_option ContextError e\<rparr>"
      by (auto simp: Echo_deadline [OF act] split: option.splits)
    from deadlineAction_result [OF e] h(1,2) have "e = Some DeadlineExceeded" by simp
    with res show ?thesis by simp
  qed
  from first second
  show "(drun sched' (deadline_init r') = Some s \<longrightarrow>
        (\<exists>rest res. quiet rest \<and> Echo (sched' @ rest) sv r' request = Some res)) \<and>
     (r \<noteq> Some Canceled \<and> CallerCancels \<notin> set sched \<and> Echo sched sv r request = Some res \<longrightarrow>
        resp res = None \<and> rerr res = Some (ContextError DeadlineExceeded) \<and>
        wireStatus (rerr res) = codes_DeadlineExceeded)"
    by blast
qed

theorem Echo_return_context_deadline_exceeded_witness:
  "Action \<lparr>Input = ''abc'', ServerSleep = None, Action = ServerAction_RETURN_CONTEXT_DEADLINE_EXCEEDED\<rparr>
     = ServerAction_RETURN_CONTEXT_DEADLINE_EXCEEDED \<and>
   drun [Handler] (deadline_init None) = Some (the (drun [Handler] (deadline_init None))) \<and>
   (\<exists>rest res. quiet rest \<and>
      Echo ([Handler] @ rest) (newServer 0) None
        \<lparr>Input = ''abc'', ServerSleep = None, Action = ServerAction_RETURN_CONTEXT_DEADLINE_EXCEEDED\<rparr> = Some res) \<and>
   Some DeadlineExceeded \<noteq> Some Canceled \<and>
   CallerCancels \<notin> set [Handler, Handler, Handler, Handler] \<and>
   Echo [Handler, Handler, Handler, Handler] (newServer 0) (Some DeadlineExceeded)
      \<lparr>Input = ''abc'', ServerSleep = None, Action = ServerAction_RETURN_CONTEXT_DEADLINE_EXCEEDED\<rparr>
     = Some \<lparr>srv = \<lparr>responseSleep = 0, requestID = 1\<rparr>, slept = None, resp = None,
             rerr = Some (ContextError DeadlineExceeded)\<rparr> \<and>
   wireStatus (rerr \<lparr>srv = \<lparr>responseSleep = 0, requestID = 1\<rparr>, slept = None, resp = None,
             rerr = Some (ContextError DeadlineExceeded)\<rparr>) = codes_DeadlineExceeded"
proof -
  let ?req = "\<lparr>Input = ''abc'', ServerSleep = None, Action = ServerAction_RETURN_CONTEXT_DEADLINE_EXCEEDED\<rparr>"
  let ?sched = "[Handler, Handler, Handler, Handler]"
  let ?res = "\<lparr>srv = \<lparr>responseSleep = 0, requestID = 1\<rparr>, slept = None, resp = None,
             rerr = Some (ContextError DeadlineExceeded)\<rparr>"
  have a: "Action ?req = ServerAction_RETURN_CONTEXT_DEADLINE_EXCEEDED" by simp
  have p: "drun [Handler] (deadline_init None) = Some (the (drun [Handler] (deadline_init None)))"
    by code_simp
  have "deadlineAction ?sched (Some DeadlineExceeded) = Some (Some DeadlineExceeded)" by code_simp
  then have e: "Echo ?sched (newServer 0) (Some DeadlineExceeded) ?req = Some ?res"
    by (simp add: Echo_deadline newServer_def)
  from Echo_return_context_deadline_exceeded
    [of ?req "[Handler]" None "the (drun [Handler] (deadline_init None))" "newServer 0"
        "Some DeadlineExceeded" ?sched ?res]
    a p e
  show ?thesis by simp
qed

text \<open>
  The call against Claim C6 as stated: the request scope is cancelled at entry, and the
  call returns \<^verbatim>\<open>CANCELLED\<close>.
\<close>

theorem Echo_return_context_deadline_exceeded_counterexample:
  "Echo [Handler, Handler, Handler, Handler] (newServer 0) (Some Canceled)
      \<lparr>Input = ''abc'', ServerSleep = None,
        Action = ServerAction_RETURN_CONTEXT_DEADLINE_EXCEEDED\<rparr> \<noteq> None \<and>
   wireStatus (rerr (the (Echo [Handler, Handler, Handler, Handler] (newServer 0) (Some Canceled)
      \<lparr>Input = ''abc'', ServerSleep = None,
        Action = ServerAction_RETURN_CONTEXT_DEADLINE_EXCEEDED\<rparr>)))
     = codes_Canceled"
proof -
  have "deadlineAction [Handler, Handler, Handler, Handler] (Some Canceled) = Some (Some Canceled)"
    by code_simp
  then show ?thesis by (simp add: Echo_deadline)
qed

end
